theory Spec2Isabelle
  imports Complex_Main
begin

section \<open>JavaScript numbers\<close>

text \<open>
  The calculator of \<^verbatim>\<open>app.js\<close> computes on JavaScript numbers. A number is modelled as
  one of the three special values of IEEE-754 or a finite value. Finite arithmetic is
  idealised: a finite result is the exact real result, so rounding to 53 bits, overflow
  to Infinity and underflow are not modelled. The special values follow IEEE-754.
  Where the platform computes a value that is not the exact one, a test of the source
  for an exact value can come out differently there: the sine of the double nearest to
  \<open>\<pi>\<close> is about \<open>1.2 \<times> 10\<^sup>-\<^sup>1\<^sup>6\<close> on the platform and is \<open>0\<close> here. The properties on concrete
  inputs below use values that the platform computes exactly, and the general ones are
  about whatever values the operations return.

  Negative zero is not modelled. The constructor of \<^verbatim>\<open>Complex\<close> replaces it by \<open>0\<close>
  (\<^verbatim>\<open>Number(re) || 0\<close>), so no component of a complex value ever is \<open>-0\<close>, and the only
  operations that tell the zeros apart (a division by it, \<^verbatim>\<open>Math.atan2\<close>) are applied to
  components only.
\<close>

datatype jsnum = NaN | PInf | NInf | Num real

text \<open>The comparisons \<^verbatim>\<open>===\<close>, \<^verbatim>\<open><\<close> and \<^verbatim>\<open>>=\<close> on numbers: all false on NaN.\<close>

fun seq :: "jsnum \<Rightarrow> jsnum \<Rightarrow> bool" where
  "seq NaN _ = False"
| "seq _ NaN = False"
| "seq a b = (a = b)"

fun flt :: "jsnum \<Rightarrow> jsnum \<Rightarrow> bool" where
  "flt NaN _ = False"
| "flt _ NaN = False"
| "flt PInf _ = False"
| "flt _ NInf = False"
| "flt NInf _ = True"
| "flt _ PInf = True"
| "flt (Num a) (Num b) = (a < b)"

fun fge :: "jsnum \<Rightarrow> jsnum \<Rightarrow> bool" where
  "fge NaN _ = False"
| "fge _ NaN = False"
| "fge a b = (\<not> flt a b)"

fun fneg :: "jsnum \<Rightarrow> jsnum" where
  "fneg NaN = NaN"
| "fneg PInf = NInf"
| "fneg NInf = PInf"
| "fneg (Num a) = Num (- a)"

fun fadd :: "jsnum \<Rightarrow> jsnum \<Rightarrow> jsnum" where
  "fadd NaN _ = NaN"
| "fadd _ NaN = NaN"
| "fadd PInf NInf = NaN"
| "fadd NInf PInf = NaN"
| "fadd PInf _ = PInf"
| "fadd _ PInf = PInf"
| "fadd NInf _ = NInf"
| "fadd _ NInf = NInf"
| "fadd (Num a) (Num b) = Num (a + b)"

definition fsub :: "jsnum \<Rightarrow> jsnum \<Rightarrow> jsnum" where
  "fsub a b = fadd a (fneg b)"

text \<open>The infinity with the sign of a product or quotient: positive when the flag holds.\<close>

definition signedInf :: "bool \<Rightarrow> jsnum" where
  "signedInf pos = (if pos then PInf else NInf)"

fun fmul :: "jsnum \<Rightarrow> jsnum \<Rightarrow> jsnum" where
  "fmul NaN _ = NaN"
| "fmul _ NaN = NaN"
| "fmul PInf PInf = PInf"
| "fmul PInf NInf = NInf"
| "fmul NInf PInf = NInf"
| "fmul NInf NInf = PInf"
| "fmul PInf (Num b) = (if b = 0 then NaN else signedInf (0 < b))"
| "fmul NInf (Num b) = (if b = 0 then NaN else signedInf (b < 0))"
| "fmul (Num a) PInf = (if a = 0 then NaN else signedInf (0 < a))"
| "fmul (Num a) NInf = (if a = 0 then NaN else signedInf (a < 0))"
| "fmul (Num a) (Num b) = Num (a * b)"

fun fdiv :: "jsnum \<Rightarrow> jsnum \<Rightarrow> jsnum" where
  "fdiv NaN _ = NaN"
| "fdiv _ NaN = NaN"
| "fdiv PInf PInf = NaN"
| "fdiv PInf NInf = NaN"
| "fdiv NInf PInf = NaN"
| "fdiv NInf NInf = NaN"
| "fdiv PInf (Num b) = signedInf (0 \<le> b)"
| "fdiv NInf (Num b) = signedInf (b < 0)"
| "fdiv (Num a) PInf = Num 0"
| "fdiv (Num a) NInf = Num 0"
| "fdiv (Num a) (Num b) =
     (if b = 0 then (if a = 0 then NaN else signedInf (0 < a)) else Num (a / b))"

fun fabs :: "jsnum \<Rightarrow> jsnum" where
  "fabs NaN = NaN"
| "fabs PInf = PInf"
| "fabs NInf = PInf"
| "fabs (Num a) = Num \<bar>a\<bar>"

subsection \<open>The functions of \<^verbatim>\<open>Math\<close>\<close>

text \<open>
  \<^verbatim>\<open>Math.hypot\<close>, \<^verbatim>\<open>Math.atan2\<close>, \<^verbatim>\<open>Math.pow\<close>, \<^verbatim>\<open>Math.cos\<close>, \<^verbatim>\<open>Math.sin\<close>, \<^verbatim>\<open>Math.sqrt\<close> and
  \<^verbatim>\<open>Math.sign\<close>, with the special cases the language standard fixes and the exact real
  function on finite arguments.
\<close>

fun hypot :: "jsnum \<Rightarrow> jsnum \<Rightarrow> jsnum" where
  "hypot PInf _ = PInf"
| "hypot NInf _ = PInf"
| "hypot _ PInf = PInf"
| "hypot _ NInf = PInf"
| "hypot NaN _ = NaN"
| "hypot _ NaN = NaN"
| "hypot (Num a) (Num b) = Num (sqrt (a * a + b * b))"

fun atan2 :: "jsnum \<Rightarrow> jsnum \<Rightarrow> jsnum" where
  "atan2 NaN _ = NaN"
| "atan2 _ NaN = NaN"
| "atan2 PInf PInf = Num (pi / 4)"
| "atan2 PInf NInf = Num (3 * pi / 4)"
| "atan2 PInf (Num x) = Num (pi / 2)"
| "atan2 NInf PInf = Num (- pi / 4)"
| "atan2 NInf NInf = Num (- 3 * pi / 4)"
| "atan2 NInf (Num x) = Num (- pi / 2)"
| "atan2 (Num y) PInf = Num 0"
| "atan2 (Num y) NInf = (if 0 \<le> y then Num pi else Num (- pi))"
| "atan2 (Num y) (Num x) =
     (if 0 < x then Num (arctan (y / x))
      else if x < 0 then (if 0 \<le> y then Num (arctan (y / x) + pi) else Num (arctan (y / x) - pi))
      else if 0 < y then Num (pi / 2)
      else if y < 0 then Num (- pi / 2)
      else Num 0)"

text \<open>Whether a finite exponent is an odd integer, as \<^verbatim>\<open>Math.pow\<close> asks for negative bases.\<close>

definition oddInteger :: "real \<Rightarrow> bool" where
  "oddInteger y = (y = of_int \<lfloor>y\<rfloor> \<and> odd \<lfloor>y\<rfloor>)"

fun fpow :: "jsnum \<Rightarrow> jsnum \<Rightarrow> jsnum" where
  "fpow _ NaN = NaN"
| "fpow NaN (Num y) = (if y = 0 then Num 1 else NaN)"
| "fpow NaN _ = NaN"
| "fpow PInf PInf = PInf"
| "fpow PInf NInf = Num 0"
| "fpow PInf (Num y) = (if y = 0 then Num 1 else if 0 < y then PInf else Num 0)"
| "fpow NInf PInf = PInf"
| "fpow NInf NInf = Num 0"
| "fpow NInf (Num y) =
     (if y = 0 then Num 1
      else if 0 < y then (if oddInteger y then NInf else PInf)
      else Num 0)"
| "fpow (Num x) PInf =
     (if x = 0 then Num 0
      else if 1 < \<bar>x\<bar> then PInf else if \<bar>x\<bar> = 1 then NaN else Num 0)"
| "fpow (Num x) NInf =
     (if x = 0 then PInf
      else if 1 < \<bar>x\<bar> then Num 0 else if \<bar>x\<bar> = 1 then NaN else PInf)"
| "fpow (Num x) (Num y) =
     (if y = 0 then Num 1
      else if x = 0 then (if 0 < y then Num 0 else PInf)
      else if 0 < x then Num (x powr y)
      else if y = of_int \<lfloor>y\<rfloor> then
        (if odd \<lfloor>y\<rfloor> then Num (- (\<bar>x\<bar> powr y)) else Num (\<bar>x\<bar> powr y))
      else NaN)"

fun fcos :: "jsnum \<Rightarrow> jsnum" where
  "fcos (Num x) = Num (cos x)"
| "fcos _ = NaN"

fun fsin :: "jsnum \<Rightarrow> jsnum" where
  "fsin (Num x) = Num (sin x)"
| "fsin _ = NaN"

fun fsqrt :: "jsnum \<Rightarrow> jsnum" where
  "fsqrt NaN = NaN"
| "fsqrt PInf = PInf"
| "fsqrt NInf = NaN"
| "fsqrt (Num x) = (if x < 0 then NaN else Num (sqrt x))"

fun fsign :: "jsnum \<Rightarrow> jsnum" where
  "fsign NaN = NaN"
| "fsign PInf = Num 1"
| "fsign NInf = Num (- 1)"
| "fsign (Num x) = Num (sgn x)"

text \<open>
  \<^verbatim>\<open>x || 0\<close> on a number: \<open>NaN\<close> and zero are the falsy numbers, and both become \<open>0\<close>;
  \<^verbatim>\<open>x || 1\<close> likewise.
\<close>

definition falsy :: "jsnum \<Rightarrow> bool" where
  "falsy x = (x = NaN \<or> x = Num 0)"

definition orElse :: "jsnum \<Rightarrow> jsnum \<Rightarrow> jsnum" where
  "orElse x d = (if falsy x then d else x)"

section \<open>Strings\<close>

text \<open>
  Strings are lists of characters. The inputs of the calculator are taken to be ASCII, so
  the white space of \<^verbatim>\<open>\s\<close> and of \<^verbatim>\<open>trim\<close> is tab, line feed, vertical tab, form feed,
  carriage return and space.
\<close>

definition isSpace :: "char \<Rightarrow> bool" where
  "isSpace c = (c \<in> set [CHR 0x09, CHR 0x0A, CHR 0x0B, CHR 0x0C, CHR 0x0D, CHR '' ''])"

definition isDigit :: "char \<Rightarrow> bool" where
  "isDigit c = (c \<in> set ''0123456789'')"

definition isLetter :: "char \<Rightarrow> bool" where
  "isLetter c = (c \<in> set ''ABCDEFGHIJKLMNOPQRSTUVWXYZabcdefghijklmnopqrstuvwxyz'')"

definition trim :: "string \<Rightarrow> string" where
  "trim s = rev (dropWhile isSpace (rev (dropWhile isSpace s)))"

definition toLowerCase :: "string \<Rightarrow> string" where
  "toLowerCase s =
     map (\<lambda>c. case map_of (zip ''ABCDEFGHIJKLMNOPQRSTUVWXYZ'' ''abcdefghijklmnopqrstuvwxyz'') c of
                 None \<Rightarrow> c | Some l \<Rightarrow> l) s"

text \<open>\<^verbatim>\<open>arr.join(sep)\<close> on an array of strings.\<close>

fun join :: "string \<Rightarrow> string list \<Rightarrow> string" where
  "join sep [] = []"
| "join sep [x] = x"
| "join sep (x # y # ys) = x @ sep @ join sep (y # ys)"

subsection \<open>\<^verbatim>\<open>Number(s)\<close>: a string read as a number\<close>

definition digitVal :: "char \<Rightarrow> nat" where
  "digitVal c = (if isDigit c then of_char c - 48
                 else if c \<in> set ''abcdef'' then of_char c - 87
                 else of_char c - 55)"

definition radixValue :: "nat \<Rightarrow> string \<Rightarrow> nat" where
  "radixValue b ds = foldl (\<lambda>a c. b * a + digitVal c) 0 ds"

text \<open>\<open>x \<times> 10\<^sup>e\<close> for an integer exponent.\<close>

definition scale10 :: "real \<Rightarrow> int \<Rightarrow> real" where
  "scale10 x e = (if 0 \<le> e then x * 10 ^ nat e else x / 10 ^ nat (- e))"

text \<open>The optional exponent part \<^verbatim>\<open>e\<close>, sign, digits at the end of a decimal literal.\<close>

definition exponentPart :: "string \<Rightarrow> int option" where
  "exponentPart s =
     (case s of
        [] \<Rightarrow> Some 0
      | c # r \<Rightarrow>
          if c \<in> set ''eE'' then
            (let neg = (r \<noteq> [] \<and> hd r = CHR ''-'');
                 ds = (if r \<noteq> [] \<and> hd r \<in> set ''+-'' then tl r else r)
             in if ds \<noteq> [] \<and> list_all isDigit ds
                then Some (if neg then - int (radixValue 10 ds) else int (radixValue 10 ds))
                else None)
          else None)"

text \<open>
  An unsigned decimal literal: digits with an optional fraction, or a fraction alone,
  and an optional exponent. \<open>None\<close> when the string is no such literal.
\<close>

definition unsignedDecimal :: "string \<Rightarrow> real option" where
  "unsignedDecimal s =
     (let ip = takeWhile isDigit s; r1 = dropWhile isDigit s
      in if r1 \<noteq> [] \<and> hd r1 = CHR ''.'' then
           (let fp = takeWhile isDigit (tl r1); r2 = dropWhile isDigit (tl r1)
            in if ip = [] \<and> fp = [] then None
               else map_option
                      (scale10 (real (radixValue 10 ip) + real (radixValue 10 fp) / 10 ^ length fp))
                      (exponentPart r2))
         else if ip = [] then None
         else map_option (scale10 (real (radixValue 10 ip))) (exponentPart r1))"

text \<open>A hexadecimal, octal or binary integer literal (\<^verbatim>\<open>0x1F\<close>, \<^verbatim>\<open>0o17\<close>, \<^verbatim>\<open>0b101\<close>).\<close>

definition nonDecimal :: "string \<Rightarrow> nat option" where
  "nonDecimal s =
     (case s of
        z # x # ds \<Rightarrow>
          if z = CHR ''0'' \<and> ds \<noteq> [] then
            (if x \<in> set ''xX'' \<and> list_all (\<lambda>c. c \<in> set ''0123456789abcdefABCDEF'') ds
               then Some (radixValue 16 ds)
             else if x \<in> set ''oO'' \<and> list_all (\<lambda>c. c \<in> set ''01234567'') ds
               then Some (radixValue 8 ds)
             else if x \<in> set ''bB'' \<and> list_all (\<lambda>c. c \<in> set ''01'') ds
               then Some (radixValue 2 ds)
             else None)
          else None
      | _ \<Rightarrow> None)"

definition strToNumber :: "string \<Rightarrow> jsnum" where
  "strToNumber s =
     (let t = trim s
      in if t = [] then Num 0
         else case nonDecimal t of
           Some v \<Rightarrow> Num (real v)
         | None \<Rightarrow>
            (let neg = (hd t = CHR ''-'');
                 u = (if hd t \<in> set ''+-'' then tl t else t)
             in if u = ''Infinity'' then signedInf (\<not> neg)
                else case unsignedDecimal u of
                  None \<Rightarrow> NaN
                | Some v \<Rightarrow> Num (if neg then - v else v)))"

subsection \<open>\<^verbatim>\<open>String(x)\<close>: a number written as a string\<close>

fun digitsOfNat :: "nat \<Rightarrow> string" where
  "digitsOfNat n =
     (if n < 10 then [''0123456789'' ! n]
      else digitsOfNat (n div 10) @ [''0123456789'' ! (n mod 10)])"

text \<open>The decimal exponent \<open>n\<close> of a positive real: \<open>10\<^sup>n\<^sup>-\<^sup>1 \<le> x < 10\<^sup>n\<close>.\<close>

definition decExp :: "real \<Rightarrow> int" where
  "decExp x =
     (if 1 \<le> x then int (length (digitsOfNat (nat \<lfloor>x\<rfloor>)))
      else 1 - int (length (digitsOfNat (nat (\<lceil>1 / x\<rceil> - 1)))))"

text \<open>
  The digits of a positive real, as the language standard asks: the least \<open>k\<close> and the
  integer \<open>s\<close> of \<open>k\<close> digits with \<open>s \<times> 10\<^sup>n\<^sup>-\<^sup>k = x\<close>. The platform never prints more than
  17 digits; a real with no such expansion of at most 17 digits is rounded to 17 digits
  here, where the platform prints the shortest numeral that reads back as the same
  double.
\<close>

definition sigDigits :: "real \<Rightarrow> nat \<times> nat" where
  "sigDigits x =
     (let n = decExp x
      in case find (\<lambda>k. scale10 x (int k - n) = of_int \<lfloor>scale10 x (int k - n)\<rfloor>) [1..<18] of
           Some k \<Rightarrow> (k, nat \<lfloor>scale10 x (int k - n)\<rfloor>)
         | None \<Rightarrow> (17, nat \<lfloor>scale10 x (17 - n) + 1 / 2\<rfloor>))"

definition posToString :: "real \<Rightarrow> string" where
  "posToString x =
     (let n = decExp x; (k, s) = sigDigits x; ds = digitsOfNat s; e = n - 1;
          ex = (if 0 \<le> e then ''+'' else ''-'') @ digitsOfNat (nat \<bar>e\<bar>)
      in if int k \<le> n \<and> n \<le> 21 then ds @ replicate (nat n - k) CHR ''0''
         else if 0 < n \<and> n \<le> 21 then take (nat n) ds @ ''.'' @ drop (nat n) ds
         else if - 6 < n \<and> n \<le> 0 then ''0.'' @ replicate (nat (- n)) CHR ''0'' @ ds
         else if k = 1 then ds @ ''e'' @ ex
         else take 1 ds @ ''.'' @ drop 1 ds @ ''e'' @ ex)"

fun numToString :: "jsnum \<Rightarrow> string" where
  "numToString NaN = ''NaN''"
| "numToString PInf = ''Infinity''"
| "numToString NInf = ''-Infinity''"
| "numToString (Num x) =
     (if x = 0 then ''0''
      else if x < 0 then ''-'' @ posToString (- x)
      else posToString x)"

section \<open>Errors\<close>

text \<open>
  Every \<^verbatim>\<open>throw new Error(...)\<close> of the source is one constructor, carrying what the
  message of the source carries. The two division checks raise the same kind of error
  with different messages; the site records which one it was. \<open>TypeError\<close> is the
  error of the language itself when a property of \<^verbatim>\<open>undefined\<close> is read.
\<close>

datatype zero_site = ComplexZero | DuringEvaluation

datatype error =
    EmptyComplexLiteral
  | InvalidToken string
  | UnexpectedToken string string
  | UnclosedParenthesis
  | UnclosedCallParenthesis
  | InvalidPrimary string
  | TrailingTokens string
  | UnboundVariable string
  | ArityError string
  | UnknownFunction string
  | DivisionByZero zero_site
  | ComplexExponentUnsupported
  | UnknownAst
  | TypeError

section \<open>Complex\<close>

record cplx =
  re :: jsnum
  im :: jsnum

text \<open>The constructor: \<^verbatim>\<open>this.re = Number(re) || 0; this.im = Number(im) || 0\<close>.\<close>

definition Complex_new :: "jsnum \<Rightarrow> jsnum \<Rightarrow> cplx" where
  "Complex_new r i = \<lparr>re = orElse r (Num 0), im = orElse i (Num 0)\<rparr>"

text \<open>
  The loop of \<^verbatim>\<open>fromString\<close> that looks for the last \<^verbatim>\<open>+\<close> or \<^verbatim>\<open>-\<close> of \<open>core\<close> at an
  index from \<open>i\<close> down to 1.
\<close>

fun findSep :: "string \<Rightarrow> nat \<Rightarrow> nat option" where
  "findSep core 0 = None"
| "findSep core (Suc i) =
     (if core ! Suc i \<in> set ''+-'' then Some (Suc i) else findSep core i)"

definition Complex_fromString :: "string \<Rightarrow> error + cplx" where
  "Complex_fromString s0 =
     (if trim s0 = [] then Inl EmptyComplexLiteral
      else
        let s = filter (\<lambda>c. \<not> isSpace c) (trim s0)
        in if s = ''i'' then Inr (Complex_new (Num 0) (Num 1))
           else if s = ''-i'' then Inr (Complex_new (Num 0) (Num (- 1)))
           else if CHR ''i'' \<in> set s then
             (let core = takeWhile (\<lambda>c. c \<noteq> CHR ''i'') s
              in if core = [] then Inr (Complex_new (Num 0) (Num 1))
                 else if core = ''+'' then Inr (Complex_new (Num 0) (Num 1))
                 else if core = ''-'' then Inr (Complex_new (Num 0) (Num (- 1)))
                 else case findSep core (length core - 1) of
                   None \<Rightarrow> Inr (Complex_new (Num 0) (strToNumber core))
                 | Some sep \<Rightarrow>
                     Inr (Complex_new (strToNumber (take sep core)) (strToNumber (drop sep core))))
           else Inr (Complex_new (strToNumber s) (Num 0)))"

definition Complex_toString :: "cplx \<Rightarrow> string" where
  "Complex_toString z =
     (let reStr = numToString (re z); imAbs = fabs (im z)
      in if seq (im z) (Num 0) then reStr
         else if seq (re z) (Num 0) then
           (if seq (im z) (Num 1) then ''i''
            else if seq (im z) (Num (- 1)) then ''-i''
            else numToString (im z) @ ''i'')
         else
           let sign = (if fge (im z) (Num 0) then ''+'' else ''-'');
               imPart = (if seq imAbs (Num 1) then ''i'' else numToString imAbs @ ''i'')
           in reStr @ sign @ imPart)"

definition Complex_add :: "cplx \<Rightarrow> cplx \<Rightarrow> cplx" where
  "Complex_add a b = Complex_new (fadd (re a) (re b)) (fadd (im a) (im b))"

definition Complex_sub :: "cplx \<Rightarrow> cplx \<Rightarrow> cplx" where
  "Complex_sub a b = Complex_new (fsub (re a) (re b)) (fsub (im a) (im b))"

definition Complex_mul :: "cplx \<Rightarrow> cplx \<Rightarrow> cplx" where
  "Complex_mul a b =
     Complex_new (fsub (fmul (re a) (re b)) (fmul (im a) (im b)))
                 (fadd (fmul (re a) (im b)) (fmul (im a) (re b)))"

definition Complex_div :: "cplx \<Rightarrow> cplx \<Rightarrow> error + cplx" where
  "Complex_div a b =
     (let denom = fadd (fmul (re b) (re b)) (fmul (im b) (im b))
      in if seq denom (Num 0) then Inl (DivisionByZero ComplexZero)
         else Inr (Complex_new (fdiv (fadd (fmul (re a) (re b)) (fmul (im a) (im b))) denom)
                               (fdiv (fsub (fmul (im a) (re b)) (fmul (re a) (im b))) denom)))"

definition Complex_conj :: "cplx \<Rightarrow> cplx" where
  "Complex_conj a = Complex_new (re a) (fneg (im a))"

definition Complex_abs :: "cplx \<Rightarrow> jsnum" where
  "Complex_abs a = hypot (re a) (im a)"

definition Complex_neg :: "cplx \<Rightarrow> cplx" where
  "Complex_neg a = Complex_new (fneg (re a)) (fneg (im a))"

definition Complex_pow :: "cplx \<Rightarrow> jsnum \<Rightarrow> cplx" where
  "Complex_pow a n =
     (let r = Complex_abs a;
          theta = atan2 (im a) (re a);
          rn = fpow r n;
          thn = fmul theta n
      in Complex_new (fmul rn (fcos thn)) (fmul rn (fsin thn)))"

definition Complex_approxEquals :: "cplx \<Rightarrow> cplx \<Rightarrow> jsnum \<Rightarrow> bool" where
  "Complex_approxEquals a b eps =
     (flt (fabs (fsub (re a) (re b))) eps \<and> flt (fabs (fsub (im a) (im b))) eps)"

definition Complex_sqrt :: "cplx \<Rightarrow> cplx" where
  "Complex_sqrt z =
     (let r = Complex_abs z;
          re' = fsqrt (fdiv (fadd r (re z)) (Num 2));
          im' = fmul (fsign (orElse (im z) (Num 1))) (fsqrt (fdiv (fsub r (re z)) (Num 2)))
      in Complex_new re' im')"

section \<open>Lexer\<close>

definition isIdentStart :: "char \<Rightarrow> bool" where
  "isIdentStart c = (isLetter c \<or> c = CHR ''_'')"

definition isIdentChar :: "char \<Rightarrow> bool" where
  "isIdentChar c = (isLetter c \<or> isDigit c \<or> c = CHR ''_'')"

text \<open>
  One match of the group of the regular expression of \<^verbatim>\<open>tokenize\<close>,
  \<^verbatim>\<open>([A-Za-z_][A-Za-z0-9_]*|\d*\.\d+|\d+|[()+\-*/^,]|(\*\*)|i)\<close>, at the start of a string:
  the token and the rest. The alternatives are tried in the order of the source and the
  first that matches wins, so the single character \<^verbatim>\<open>*\<close> of the fourth alternative is
  taken before the fifth alternative \<^verbatim>\<open>**\<close> is tried.
\<close>

definition matchToken :: "string \<Rightarrow> (string \<times> string) option" where
  "matchToken s =
     (let ds = takeWhile isDigit s; r = dropWhile isDigit s
      in if s \<noteq> [] \<and> isIdentStart (hd s) then
           Some (hd s # takeWhile isIdentChar (tl s), dropWhile isIdentChar (tl s))
         else if r \<noteq> [] \<and> hd r = CHR ''.'' \<and> takeWhile isDigit (tl r) \<noteq> [] then
           Some (ds @ ''.'' @ takeWhile isDigit (tl r), dropWhile isDigit (tl r))
         else if ds \<noteq> [] then Some (ds, r)
         else if s \<noteq> [] \<and> hd s \<in> set ''()+-*/^,'' then Some ([hd s], tl s)
         else if take 2 s = ''**'' then Some (''**'', drop 2 s)
         else if s \<noteq> [] \<and> hd s = CHR ''i'' then Some (''i'', tl s)
         else None)"

text \<open>
  The loop of \<^verbatim>\<open>tokenize\<close>, on the part of the input from \<open>idx\<close> on. The expression
  allows white space before and after the token; when it does not match at \<open>idx\<close> the
  error carries the next 20 characters.
\<close>

function tokenizeFrom :: "string \<Rightarrow> error + string list" where
  "tokenizeFrom s =
     (if s = [] then Inr []
      else case matchToken (dropWhile isSpace s) of
        None \<Rightarrow> Inl (InvalidToken (take 20 s))
      | Some (tok, rest) \<Rightarrow>
          (case tokenizeFrom (dropWhile isSpace rest) of
             Inl e \<Rightarrow> Inl e
           | Inr toks \<Rightarrow> Inr (tok # toks)))"
  by pat_completeness auto
termination
proof (relation "measure length")
  fix s :: string and x2 tok rest
  assume m: "matchToken (dropWhile isSpace s) = Some x2" and x2: "(tok, rest) = x2"
  define u where "u = dropWhile isSpace s"
  have d: "\<And>P (xs :: string). length (dropWhile P xs) \<le> length xs"
    by (simp add: length_dropWhile_le)
  from m x2 have mu: "matchToken u = Some (tok, rest)" by (simp add: u_def)
  have "length rest < length u"
  proof (cases u)
    case Nil
    with mu show ?thesis by (simp add: matchToken_def)
  next
    case (Cons c cs)
    have r: "dropWhile isDigit u \<noteq> [] \<Longrightarrow>
             length (dropWhile isDigit (tl (dropWhile isDigit u))) < length u"
      using d [of isDigit "tl (dropWhile isDigit u)"] d [of isDigit u]
      by (cases "dropWhile isDigit u") auto
    have i: "length (dropWhile isIdentChar cs) < length u"
      using d [of isIdentChar cs] Cons by simp
    have "length (takeWhile isDigit u) + length (dropWhile isDigit u) = length u"
      by (metis length_append takeWhile_dropWhile_id)
    then have n: "takeWhile isDigit u \<noteq> [] \<Longrightarrow> length (dropWhile isDigit u) < length u"
      by (cases "takeWhile isDigit u") auto
    from mu r i n Cons show ?thesis
      by (auto simp: matchToken_def Let_def split: if_splits)
  qed
  moreover have "length (dropWhile isSpace rest) \<le> length rest" by (rule d)
  moreover have "length u \<le> length s" unfolding u_def by (rule d)
  ultimately show "(dropWhile isSpace rest, s) \<in> measure length" by simp
qed simp

definition tokenize :: "string \<Rightarrow> error + string list" where
  "tokenize input = tokenizeFrom input"

section \<open>Parser\<close>

text \<open>
  The nodes of the syntax tree, as the parser builds them: \<^verbatim>\<open>{type:'num', value}\<close>,
  \<^verbatim>\<open>{type:'var', name}\<close>, \<^verbatim>\<open>{type:'call', name, args}\<close> and \<^verbatim>\<open>{type:'op', op, args}\<close>. The name
  of a variable node is the token the parser read, and that is \<^verbatim>\<open>undefined\<close> (\<open>None\<close>)
  when the parser read past the end of the tokens.
\<close>

datatype ast =
    NumNode cplx
  | VarNode "string option"
  | CallNode string "ast list"
  | OpNode string "ast list"

text \<open>\<^verbatim>\<open>tokens[pos]\<close>: \<^verbatim>\<open>undefined\<close> (\<open>None\<close>) out of range.\<close>

definition peek :: "string list \<Rightarrow> nat \<Rightarrow> string option" where
  "peek tokens pos = (if pos < length tokens then Some (tokens ! pos) else None)"

text \<open>A token or \<^verbatim>\<open>undefined\<close> as a string, as a regular expression test or \<^verbatim>\<open>+\<close> reads it.\<close>

definition tokText :: "string option \<Rightarrow> string" where
  "tokText t = (case t of None \<Rightarrow> ''undefined'' | Some s \<Rightarrow> s)"

text \<open>
  \<^verbatim>\<open>consume(expected)\<close> returns the token read and the next position; \<^verbatim>\<open>consume()\<close> is the
  call with nothing expected, here the empty string. The parser calls it with an expected
  token only after \<^verbatim>\<open>peek()\<close> has returned that token, so it never fails there
  (\<open>consume_after_peek\<close> below) and the parser functions advance the position directly.
\<close>

definition consume :: "string list \<Rightarrow> nat \<Rightarrow> string \<Rightarrow> error + string option \<times> nat" where
  "consume tokens pos expected =
     (if expected \<noteq> [] \<and> peek tokens pos \<noteq> Some expected
      then Inl (UnexpectedToken expected (tokText (peek tokens pos)))
      else Inr (peek tokens pos, Suc pos))"

text \<open>\<^verbatim>\<open>/^\d/.test(t) || /^\d*\.\d+$/.test(t)\<close>\<close>

definition isNumberToken :: "string option \<Rightarrow> bool" where
  "isNumberToken t =
     (let s = tokText t; r = dropWhile isDigit s
      in (s \<noteq> [] \<and> isDigit (hd s)) \<or>
         (r \<noteq> [] \<and> hd r = CHR ''.'' \<and> tl r \<noteq> [] \<and> list_all isDigit (tl r)))"

text \<open>\<^verbatim>\<open>/^[A-Za-z_][A-Za-z0-9_]*$/.test(t)\<close>\<close>

definition isIdentToken :: "string option \<Rightarrow> bool" where
  "isIdentToken t =
     (let s = tokText t in s \<noteq> [] \<and> isIdentStart (hd s) \<and> list_all isIdentChar (tl s))"

text \<open>
  A parser function returns \<open>None\<close> when its fuel is used up, and otherwise an error or
  its result with the position after it.
\<close>

definition andThen ::
  "(error + 'a) option \<Rightarrow> ('a \<Rightarrow> (error + 'b) option) \<Rightarrow> (error + 'b) option" where
  "andThen m k = (case m of None \<Rightarrow> None | Some (Inl e) \<Rightarrow> Some (Inl e) | Some (Inr x) \<Rightarrow> k x)"

text \<open>
  The recursive descent functions of \<^verbatim>\<open>parseExpression\<close> call each other, so they are one
  function with the name of the source function as an argument. Each \<^verbatim>\<open>while\<close> loop is
  an entry of its own that takes what the loop has built so far: \<open>CallArgs\<close> is the
  argument loop of a function call with the closing parenthesis after it, and
  \<open>PowerLoop\<close>, \<open>MulDivLoop\<close> and \<open>AddSubLoop\<close> are the operator loops. The first argument
  is the fuel: every call uses one unit.
\<close>

datatype rule =
    Primary
  | CallArgs string "ast list"
  | Power
  | PowerLoop ast
  | MulDiv
  | MulDivLoop ast
  | AddSub
  | AddSubLoop ast

fun parse :: "nat \<Rightarrow> string list \<Rightarrow> rule \<Rightarrow> nat \<Rightarrow> (error + ast \<times> nat) option" where
  "parse 0 tokens r pos = None"
| "parse (Suc f) tokens Primary pos =
     (let t = peek tokens pos
      in if t = Some ''('' then
           andThen (parse f tokens AddSub (Suc pos)) (\<lambda>(node, p).
             if peek tokens p \<noteq> Some '')'' then Some (Inl UnclosedParenthesis)
             else Some (Inr (node, Suc p)))
         else if isNumberToken t then
           (if peek tokens (Suc pos) = Some ''i'' then
              (case Complex_fromString (tokText t @ ''i'') of
                 Inl e \<Rightarrow> Some (Inl e)
               | Inr v \<Rightarrow> Some (Inr (NumNode v, Suc (Suc pos))))
            else Some (Inr (NumNode (Complex_new (strToNumber (tokText t)) (Num 0)), Suc pos)))
         else if t = Some ''i'' then Some (Inr (NumNode (Complex_new (Num 0) (Num 1)), Suc pos))
         else if isIdentToken t then
           (if peek tokens (Suc pos) = Some ''('' then
              (if peek tokens (Suc (Suc pos)) \<noteq> Some '')''
               then parse f tokens (CallArgs (tokText t) []) (Suc (Suc pos))
               else Some (Inr (CallNode (tokText t) [], Suc (Suc (Suc pos)))))
            else Some (Inr (VarNode t, Suc pos)))
         else if t = Some ''+'' \<or> t = Some ''-'' then
           andThen (parse f tokens Primary (Suc pos)) (\<lambda>(prim, p).
             if t = Some ''-'' then Some (Inr (OpNode ''neg'' [prim], p))
             else Some (Inr (prim, p)))
         else Some (Inl (InvalidPrimary (tokText t))))"
| "parse (Suc f) tokens (CallArgs name args) pos =
     andThen (parse f tokens AddSub pos) (\<lambda>(a, p).
       if peek tokens p = Some '','' then parse f tokens (CallArgs name (args @ [a])) (Suc p)
       else if peek tokens p \<noteq> Some '')'' then Some (Inl UnclosedCallParenthesis)
       else Some (Inr (CallNode name (args @ [a]), Suc p)))"
| "parse (Suc f) tokens Power pos =
     andThen (parse f tokens Primary pos) (\<lambda>(left, p). parse f tokens (PowerLoop left) p)"
| "parse (Suc f) tokens (PowerLoop left) pos =
     (if peek tokens pos = Some ''**'' \<or> peek tokens pos = Some ''^'' then
        andThen (parse f tokens Power (Suc pos)) (\<lambda>(right, p).
          parse f tokens (PowerLoop (OpNode ''**'' [left, right])) p)
      else Some (Inr (left, pos)))"
| "parse (Suc f) tokens MulDiv pos =
     andThen (parse f tokens Power pos) (\<lambda>(node, p). parse f tokens (MulDivLoop node) p)"
| "parse (Suc f) tokens (MulDivLoop node) pos =
     (if peek tokens pos = Some ''*'' \<or> peek tokens pos = Some ''/'' then
        andThen (parse f tokens Power (Suc pos)) (\<lambda>(right, p).
          parse f tokens (MulDivLoop (OpNode (tokText (peek tokens pos)) [node, right])) p)
      else Some (Inr (node, pos)))"
| "parse (Suc f) tokens AddSub pos =
     andThen (parse f tokens MulDiv pos) (\<lambda>(node, p). parse f tokens (AddSubLoop node) p)"
| "parse (Suc f) tokens (AddSubLoop node) pos =
     (if peek tokens pos = Some ''+'' \<or> peek tokens pos = Some ''-'' then
        andThen (parse f tokens MulDiv (Suc pos)) (\<lambda>(right, p).
          parse f tokens (AddSubLoop (OpNode (tokText (peek tokens pos)) [node, right])) p)
      else Some (Inr (node, pos)))"

definition parsePrimary :: "nat \<Rightarrow> string list \<Rightarrow> nat \<Rightarrow> (error + ast \<times> nat) option" where
  "parsePrimary fuel tokens pos = parse fuel tokens Primary pos"

definition parsePower :: "nat \<Rightarrow> string list \<Rightarrow> nat \<Rightarrow> (error + ast \<times> nat) option" where
  "parsePower fuel tokens pos = parse fuel tokens Power pos"

definition parseMulDiv :: "nat \<Rightarrow> string list \<Rightarrow> nat \<Rightarrow> (error + ast \<times> nat) option" where
  "parseMulDiv fuel tokens pos = parse fuel tokens MulDiv pos"

definition parseAddSub :: "nat \<Rightarrow> string list \<Rightarrow> nat \<Rightarrow> (error + ast \<times> nat) option" where
  "parseAddSub fuel tokens pos = parse fuel tokens AddSub pos"

text \<open>
  The body of \<^verbatim>\<open>parseExpression\<close> with a given fuel: one additive expression, then the
  check that no token is left.
\<close>

definition parseWith :: "nat \<Rightarrow> string list \<Rightarrow> (error + ast) option" where
  "parseWith fuel tokens =
     andThen (parseAddSub fuel tokens 0) (\<lambda>(node, pos).
       if pos < length tokens then Some (Inl (TrailingTokens (join '' '' (drop pos tokens))))
       else Some (Inr node))"

text \<open>
  \<^verbatim>\<open>parseExpression\<close>. The nesting of calls is bounded by the number of tokens: between
  two nested calls of the same function a token is consumed. Four units of fuel for
  each token and four more are enough (\<open>parseExpression_returns\<close> below), and more fuel
  does not change the result (\<open>parseWith_more_fuel\<close>).
\<close>

definition parseExpression :: "string list \<Rightarrow> (error + ast) option" where
  "parseExpression tokens = parseWith (4 * length tokens + 4) tokens"

section \<open>Printer\<close>

text \<open>
  \<^verbatim>\<open>astToLisp\<close> returns a string, or \<^verbatim>\<open>undefined\<close> (\<open>None\<close>) for a variable node whose name is
  \<^verbatim>\<open>undefined\<close>. \<^verbatim>\<open>join\<close> writes \<^verbatim>\<open>undefined\<close> as the empty string and \<^verbatim>\<open>+\<close> writes it as
  \<^verbatim>\<open>undefined\<close>. A missing operand (\<^verbatim>\<open>args[0]\<close> of an empty array) prints as the empty
  string.
\<close>

definition joinText :: "string option \<Rightarrow> string" where
  "joinText t = (case t of None \<Rightarrow> [] | Some s \<Rightarrow> s)"

fun astToLisp :: "ast \<Rightarrow> string option" where
  "astToLisp (NumNode v) = Some (Complex_toString v)"
| "astToLisp (VarNode name) = name"
| "astToLisp (CallNode name args) =
     Some (''('' @ name
           @ (if args \<noteq> [] then '' '' @ join '' '' (map (\<lambda>a. joinText (astToLisp a)) args) else [])
           @ '')'')"
| "astToLisp (OpNode op []) =
     (if op = ''neg'' then Some (''(- '' @ '')'')
      else if op = ''**'' then Some (''(** '' @ '' '' @ '')'')
      else Some (''('' @ op @ '' '' @ '')''))"
| "astToLisp (OpNode op [a]) =
     (if op = ''neg'' then Some (''(- '' @ tokText (astToLisp a) @ '')'')
      else if op = ''**'' then Some (''(** '' @ tokText (astToLisp a) @ '' '' @ '')'')
      else Some (''('' @ op @ '' '' @ joinText (astToLisp a) @ '')''))"
| "astToLisp (OpNode op (a # b # rest)) =
     (if op = ''neg'' then Some (''(- '' @ tokText (astToLisp a) @ '')'')
      else if op = ''**'' then
        Some (''(** '' @ tokText (astToLisp a) @ '' '' @ tokText (astToLisp b) @ '')'')
      else Some (''('' @ op @ '' ''
                 @ join '' '' (map (\<lambda>x. joinText (astToLisp x)) (a # b # rest)) @ '')''))"

section \<open>Evaluator\<close>

text \<open>
  The binding environment is the object \<open>vars\<close> as \<^verbatim>\<open>evalAst\<close> reads it: \<open>vars name\<close> is
  \<open>None\<close> when \<^verbatim>\<open>name in vars\<close> is false and the text \<^verbatim>\<open>String(vars[name])\<close> otherwise.
\<close>

type_synonym env = "string \<rightharpoonup> string"

text \<open>The results of \<^verbatim>\<open>args.map(...)\<close>, evaluated from left to right up to the first error.\<close>

fun firstError :: "(error + 'a) list \<Rightarrow> error + 'a list" where
  "firstError [] = Inr []"
| "firstError (Inl e # rs) = Inl e"
| "firstError (Inr v # rs) = (case firstError rs of Inl e \<Rightarrow> Inl e | Inr vs \<Rightarrow> Inr (v # vs))"

text \<open>
  \<^verbatim>\<open>evalAst\<close>. An operator node with a missing operand makes the source call itself on
  \<^verbatim>\<open>undefined\<close>, which is a \<open>TypeError\<close>; the parser builds no such node.
\<close>

fun evalAst :: "ast \<Rightarrow> env \<Rightarrow> error + cplx" where
  "evalAst (NumNode v) vars = Inr v"
| "evalAst (VarNode name) vars =
     (case vars (tokText name) of
        None \<Rightarrow> Inl (UnboundVariable (tokText name))
      | Some text \<Rightarrow> Complex_fromString text)"
| "evalAst (CallNode name args) vars =
     (let fn = toLowerCase name
      in case firstError (map (\<lambda>a. evalAst a vars) args) of
           Inl e \<Rightarrow> Inl e
         | Inr vs \<Rightarrow>
             if fn = ''conj'' \<or> fn = ''conjugate'' then
               (if length vs \<noteq> 1 then Inl (ArityError ''conj'') else Inr (Complex_conj (hd vs)))
             else if fn = ''sqrt'' \<or> fn = ''raiz'' then
               (if length vs \<noteq> 1 then Inl (ArityError ''sqrt'') else Inr (Complex_sqrt (hd vs)))
             else Inl (UnknownFunction name))"
| "evalAst (OpNode op []) vars =
     (if op \<in> set [''neg'', ''+'', ''-'', ''*'', ''/'', ''**''] then Inl TypeError
      else Inl UnknownAst)"
| "evalAst (OpNode op [a]) vars =
     (if op = ''neg'' then
        (case evalAst a vars of Inl e \<Rightarrow> Inl e | Inr v \<Rightarrow> Inr (Complex_neg v))
      else if op \<in> set [''+'', ''-'', ''*''] then
        (case evalAst a vars of Inl e \<Rightarrow> Inl e | Inr v \<Rightarrow> Inl TypeError)
      else if op = ''/'' then Inl TypeError
      else if op = ''**'' then
        (case evalAst a vars of Inl e \<Rightarrow> Inl e | Inr v \<Rightarrow> Inl TypeError)
      else Inl UnknownAst)"
| "evalAst (OpNode op (a # b # rest)) vars =
     (if op = ''neg'' then
        (case evalAst a vars of Inl e \<Rightarrow> Inl e | Inr v \<Rightarrow> Inr (Complex_neg v))
      else if op = ''+'' then
        (case evalAst a vars of Inl e \<Rightarrow> Inl e | Inr x \<Rightarrow>
           (case evalAst b vars of Inl e \<Rightarrow> Inl e | Inr y \<Rightarrow> Inr (Complex_add x y)))
      else if op = ''-'' then
        (case evalAst a vars of Inl e \<Rightarrow> Inl e | Inr x \<Rightarrow>
           (case evalAst b vars of Inl e \<Rightarrow> Inl e | Inr y \<Rightarrow> Inr (Complex_sub x y)))
      else if op = ''*'' then
        (case evalAst a vars of Inl e \<Rightarrow> Inl e | Inr x \<Rightarrow>
           (case evalAst b vars of Inl e \<Rightarrow> Inl e | Inr y \<Rightarrow> Inr (Complex_mul x y)))
      else if op = ''/'' then
        (case evalAst b vars of Inl e \<Rightarrow> Inl e | Inr denom \<Rightarrow>
           if seq (re denom) (Num 0) \<and> seq (im denom) (Num 0)
           then Inl (DivisionByZero DuringEvaluation)
           else (case evalAst a vars of Inl e \<Rightarrow> Inl e | Inr x \<Rightarrow> Complex_div x denom))
      else if op = ''**'' then
        (case evalAst a vars of Inl e \<Rightarrow> Inl e | Inr base \<Rightarrow>
           (case evalAst b vars of Inl e \<Rightarrow> Inl e | Inr ex \<Rightarrow>
              if \<not> seq (im ex) (Num 0) then Inl ComplexExponentUnsupported
              else Inr (Complex_pow base (re ex))))
      else Inl UnknownAst)"

section \<open>Equivalence tester\<close>

text \<open>
  \<^verbatim>\<open>collectVars\<close> adds the names of the variable nodes to a \<^verbatim>\<open>Set\<close>, here the list of its
  elements in the order they were first added. The source walks the arguments of a call
  node twice.
\<close>

definition setAdd :: "'a \<Rightarrow> 'a list \<Rightarrow> 'a list" where
  "setAdd x xs = (if x \<in> set xs then xs else xs @ [x])"

fun collectVars :: "ast \<Rightarrow> string option list \<Rightarrow> string option list" where
  "collectVars (NumNode v) names = names"
| "collectVars (VarNode name) names = setAdd name names"
| "collectVars (OpNode op args) names = foldl (\<lambda>ns a. collectVars a ns) names args"
| "collectVars (CallNode name args) names =
     foldl (\<lambda>ns a. collectVars a ns) (foldl (\<lambda>ns a. collectVars a ns) names args) args"

text \<open>
  The random source is the sequence \<open>rnd\<close> of the values \<^verbatim>\<open>Math.random()\<close> returns, in the
  order of the calls: \<open>sampleText rnd k\<close> is the text of the binding built from the calls
  \<open>k\<close> and \<open>k + 1\<close>, \<^verbatim>\<open>`${re}${im>=0?'+':''}${im}i`\<close>.
\<close>

definition sampleText :: "(nat \<Rightarrow> real) \<Rightarrow> nat \<Rightarrow> string" where
  "sampleText rnd k =
     (let re = fmul (fsub (Num (rnd k)) (Num (1 / 2))) (Num 10);
          im = fmul (fsub (Num (rnd (Suc k))) (Num (1 / 2))) (Num 10)
      in numToString re @ (if fge im (Num 0) then ''+'' else []) @ numToString im @ ''i'')"

text \<open>
  The object \<^verbatim>\<open>{}\<close> as \<^verbatim>\<open>evalAst\<close> reads it. The name \<^verbatim>\<open>__proto__\<close> is in every object and
  reads as the prototype object, whose text is \<^verbatim>\<open>[object Object]\<close>. The other names an
  object inherits (\<^verbatim>\<open>constructor\<close>, \<^verbatim>\<open>toString\<close> and so on) are left out: storing a value
  under such a name makes it a property of the object itself, and the tester stores a
  value under every name before it evaluates.
\<close>

definition emptyObject :: env where
  "emptyObject = [''__proto__'' \<mapsto> ''[object Object]'']"

text \<open>
  \<^verbatim>\<open>obj[key] = text\<close> on such an object. Under the key \<^verbatim>\<open>__proto__\<close> nothing is stored: the
  assignment calls the setter of the prototype, which ignores a string.
\<close>

definition setProperty :: "env \<Rightarrow> string \<Rightarrow> string \<Rightarrow> env" where
  "setProperty obj key v = (if key = ''__proto__'' then obj else obj(key \<mapsto> v))"

text \<open>
  The object \<open>assignment\<close> of round \<open>t\<close>: every name, in order, gets the text of the next two
  random values; a later name with the same key replaces an earlier one.
\<close>

definition assignment :: "string option list \<Rightarrow> (nat \<Rightarrow> real) \<Rightarrow> nat \<Rightarrow> env" where
  "assignment names rnd t =
     foldl (\<lambda>m (j, n). setProperty m (tokText n) (sampleText rnd (2 * (t * length names + j))))
           emptyObject (zip [0..<length names] names)"

datatype verdict = Equal | NotEqual env string string

text \<open>
  The loop over the rounds, from round \<open>t\<close> on. A round in which an evaluation fails is
  the \<^verbatim>\<open>catch\<close> branch, which goes on with the next round.
\<close>

function trialsFrom ::
  "ast \<Rightarrow> ast \<Rightarrow> string option list \<Rightarrow> (nat \<Rightarrow> real) \<Rightarrow> nat \<Rightarrow> nat \<Rightarrow> verdict" where
  "trialsFrom ast1 ast2 names rnd trials t =
     (if t < trials then
        (case evalAst ast1 (assignment names rnd t) of
           Inl e \<Rightarrow> trialsFrom ast1 ast2 names rnd trials (Suc t)
         | Inr v1 \<Rightarrow>
            (case evalAst ast2 (assignment names rnd t) of
               Inl e \<Rightarrow> trialsFrom ast1 ast2 names rnd trials (Suc t)
             | Inr v2 \<Rightarrow>
                 if \<not> Complex_approxEquals v1 v2 (Num (1 / 10 ^ 6))
                 then NotEqual (assignment names rnd t) (Complex_toString v1) (Complex_toString v2)
                 else trialsFrom ast1 ast2 names rnd trials (Suc t)))
      else Equal)"
  by pat_completeness auto
termination
  by (relation "measure (\<lambda>(ast1, ast2, names, rnd, trials, t). trials - t)") auto

definition expressionsEquivalent :: "ast \<Rightarrow> ast \<Rightarrow> nat \<Rightarrow> (nat \<Rightarrow> real) \<Rightarrow> verdict" where
  "expressionsEquivalent ast1 ast2 trials rnd =
     trialsFrom ast1 ast2 (collectVars ast2 (collectVars ast1 [])) rnd trials 0"

section \<open>The buttons\<close>

text \<open>
  The handler of the button that runs an expression: \<^verbatim>\<open>tokenize\<close>, \<^verbatim>\<open>parseExpression\<close>, then
  \<^verbatim>\<open>evalAst\<close> with the values given for the variables. The first error ends the run.
\<close>

definition runExpression :: "string \<Rightarrow> env \<Rightarrow> (error + cplx) option" where
  "runExpression input vars =
     (case tokenize input of
        Inl e \<Rightarrow> Some (Inl e)
      | Inr toks \<Rightarrow>
          (case parseExpression toks of
             None \<Rightarrow> None
           | Some (Inl e) \<Rightarrow> Some (Inl e)
           | Some (Inr node) \<Rightarrow> Some (evalAst node vars)))"

text \<open>The handler of the button that parses: \<^verbatim>\<open>tokenize\<close>, \<^verbatim>\<open>parseExpression\<close>, \<^verbatim>\<open>astToLisp\<close>.\<close>

definition renderExpression :: "string \<Rightarrow> (error + string option) option" where
  "renderExpression input =
     (case tokenize input of
        Inl e \<Rightarrow> Some (Inl e)
      | Inr toks \<Rightarrow>
          (case parseExpression toks of
             None \<Rightarrow> None
           | Some (Inl e) \<Rightarrow> Some (Inl e)
           | Some (Inr node) \<Rightarrow> Some (Inr (astToLisp node))))"

section \<open>Notions used in the properties\<close>

text \<open>
  What the fuel of \<open>parse\<close> has to be for an entry when \<open>k\<close> tokens are left, and which
  entries are loops (a loop may return without reading a token).
\<close>

fun need :: "rule \<Rightarrow> nat \<Rightarrow> nat" where
  "need Primary k = 4 * k + 1"
| "need (CallArgs name args) k = 4 * k + 5"
| "need Power k = 4 * k + 2"
| "need (PowerLoop left) k = 4 * k + 1"
| "need MulDiv k = 4 * k + 3"
| "need (MulDivLoop node) k = 4 * k + 1"
| "need AddSub k = 4 * k + 4"
| "need (AddSubLoop node) k = 4 * k + 1"

fun isLoop :: "rule \<Rightarrow> bool" where
  "isLoop (PowerLoop left) = True"
| "isLoop (MulDivLoop node) = True"
| "isLoop (AddSubLoop node) = True"
| "isLoop r = False"

text \<open>
  A call of \<open>parse\<close> returns: it did not run out of fuel, and a result ends after the
  position the call started at (at or after it, for a loop).
\<close>

definition returns :: "rule \<Rightarrow> nat \<Rightarrow> (error + ast \<times> nat) option \<Rightarrow> bool" where
  "returns r pos x =
     (case x of
        None \<Rightarrow> False
      | Some (Inl e) \<Rightarrow> True
      | Some (Inr (node, p)) \<Rightarrow> (if isLoop r then pos \<le> p else pos < p))"

text \<open>A run with more fuel extends a run with less: it returns what the other returned.\<close>

definition extends :: "'a option \<Rightarrow> 'a option \<Rightarrow> bool" where
  "extends x y = (x = None \<or> y = x)"







text \<open>
  How a component \<open>c\<close> of a complex value relates to the number \<open>raw\<close> an operation
  computed for it: an infinity is kept, and \<open>NaN\<close> has become \<open>0\<close>.
\<close>

definition carried :: "jsnum \<Rightarrow> jsnum \<Rightarrow> bool" where
  "carried raw c = ((raw = PInf \<or> raw = NInf \<longrightarrow> c = raw) \<and> (raw = NaN \<longrightarrow> c = Num 0))"

text \<open>
  The operator tokens that the three loops of the parser test for. (\<^verbatim>\<open>parsePrimary\<close> tests
  for \<^verbatim>\<open>+\<close> and \<^verbatim>\<open>-\<close> as signs as well.)
\<close>

definition isPowOp :: "string \<Rightarrow> bool" where
  "isPowOp x = (x = ''**'' \<or> x = ''^'')"

definition isMulOp :: "string \<Rightarrow> bool" where
  "isMulOp x = (x = ''*'' \<or> x = ''/'')"

definition isAddOp :: "string \<Rightarrow> bool" where
  "isAddOp x = (x = ''+'' \<or> x = ''-'')"

definition isOperator :: "string \<Rightarrow> bool" where
  "isOperator x = (isPowOp x \<or> isMulOp x \<or> isAddOp x)"

text \<open>
  \<open>absorbs r atEnd x\<close>: an entry \<open>r\<close> of \<open>parse\<close> that returns at the end of the tokens reads
  the operator \<open>x\<close> when \<open>x\<close> is put after them. \<open>atEnd\<close> says that \<open>r\<close> starts at the end of
  the tokens: a loop that starts there tests for its own operators only, and one that
  starts before has read an operand of the tier below, which tests for the operators
  that bind tighter.
\<close>

fun absorbs :: "rule \<Rightarrow> bool \<Rightarrow> string \<Rightarrow> bool" where
  "absorbs Primary atEnd x = False"
| "absorbs (CallArgs name args) atEnd x = False"
| "absorbs Power atEnd x = isPowOp x"
| "absorbs (PowerLoop left) atEnd x = isPowOp x"
| "absorbs MulDiv atEnd x = (isPowOp x \<or> isMulOp x)"
| "absorbs (MulDivLoop node) atEnd x = (if atEnd then isMulOp x else isPowOp x \<or> isMulOp x)"
| "absorbs AddSub atEnd x = isOperator x"
| "absorbs (AddSubLoop node) atEnd x = (if atEnd then isAddOp x else isOperator x)"

section \<open>The parser returns\<close>

lemma consume_after_peek:
  "peek tokens pos = Some t \<Longrightarrow> consume tokens pos t = Inr (Some t, Suc pos)"
  by (simp add: consume_def)

lemma consume_nothing_expected: "consume tokens pos [] = Inr (peek tokens pos, Suc pos)"
  by (simp add: consume_def)

lemma returns_andThen:
  assumes m: "returns r' pos' m"
    and k: "\<And>node p. (if isLoop r' then pos' \<le> p else pos' < p) \<Longrightarrow> returns r pos (k (node, p))"
  shows "returns r pos (andThen m k)"
proof (cases m)
  case None
  with m show ?thesis by (simp add: returns_def)
next
  case (Some res)
  show ?thesis
  proof (cases res)
    case (Inl e)
    with Some show ?thesis by (simp add: returns_def andThen_def)
  next
    case (Inr np)
    obtain node p where np: "np = (node, p)" by (cases np)
    from m Some Inr np have "if isLoop r' then pos' \<le> p else pos' < p"
      by (simp add: returns_def)
    from k [OF this, of node] Some Inr np show ?thesis
      by (simp add: andThen_def)
  qed
qed

lemma returns_if:
  "(c \<Longrightarrow> returns r pos a) \<Longrightarrow> (\<not> c \<Longrightarrow> returns r pos b) \<Longrightarrow>
   returns r pos (if c then a else b)"
  by simp

lemma returns_weaken:
  "returns r' p x \<Longrightarrow> (if isLoop r then pos \<le> p else pos < p) \<Longrightarrow> returns r pos x"
  by (auto simp: returns_def split: option.splits sum.splits if_splits)

lemma peek_Some_less: "peek tokens pos = Some t \<Longrightarrow> pos < length tokens"
  by (simp add: peek_def split: if_splits)

text \<open>
  With the fuel \<open>need\<close> asks for, every entry of the parser returns, and a result has
  moved the position forward. By induction on the fuel: each nested call starts at
  least one token later, or is an entry that needs less at the same position.
\<close>

lemma parse_returns:
  "need r (length tokens - pos) \<le> F \<Longrightarrow> returns r pos (parse F tokens r pos)"
proof (induction F arbitrary: r pos)
  case 0
  then show ?case by (cases r) simp_all
next
  case (Suc F)
  note IH = Suc.IH
  show ?case
  proof (cases r)
    case Primary
    have sub: "returns AddSub (Suc pos) (parse F tokens AddSub (Suc pos))" if "pos < length tokens"
      using that Suc.prems Primary by (intro IH) simp
    have un: "returns Primary (Suc pos) (parse F tokens Primary (Suc pos))" if "pos < length tokens"
      using that Suc.prems Primary by (intro IH) simp
    have call: "returns (CallArgs nm []) (Suc (Suc pos)) (parse F tokens (CallArgs nm []) (Suc (Suc pos)))"
      if "Suc pos < length tokens" for nm
      using that Suc.prems Primary by (intro IH) simp
    show ?thesis
      unfolding Primary parse.simps Let_def
      apply (intro returns_if)
      subgoal
        by (rule returns_andThen [OF sub]) (auto simp: returns_def dest: peek_Some_less)
      subgoal by (simp add: returns_def split: sum.splits)
      subgoal by (simp add: returns_def)
      subgoal by (simp add: returns_def)
      subgoal by (rule returns_weaken [OF call]) (auto dest: peek_Some_less)
      subgoal by (simp add: returns_def)
      subgoal by (simp add: returns_def)
      subgoal
        by (rule returns_andThen [OF un]) (auto simp: returns_def dest: peek_Some_less)
      subgoal by (simp add: returns_def)
      done
  next
    case (CallArgs name args)
    have sub: "returns AddSub pos (parse F tokens AddSub pos)"
      using Suc.prems CallArgs by (intro IH) simp
    have more: "returns (CallArgs name as) (Suc p) (parse F tokens (CallArgs name as) (Suc p))"
      if "pos < p" "p < length tokens" for p as
      using that Suc.prems CallArgs by (intro IH) simp
    show ?thesis
      unfolding CallArgs parse.simps
      apply (rule returns_andThen [OF sub])
      apply (simp only: prod.case)
      apply (intro returns_if)
      subgoal for node p
        by (rule returns_weaken [OF more]) (auto dest: peek_Some_less)
      subgoal by (simp add: returns_def)
      subgoal by (simp add: returns_def)
      done
  next
    case Power
    have sub: "returns Primary pos (parse F tokens Primary pos)"
      using Suc.prems Power by (intro IH) simp
    have loop: "returns (PowerLoop left) p (parse F tokens (PowerLoop left) p)"
      if "pos < p" for p left
      using that Suc.prems Power by (intro IH) simp
    show ?thesis
      unfolding Power parse.simps
      apply (rule returns_andThen [OF sub])
      apply (simp only: prod.case)
      subgoal for node p by (rule returns_weaken [OF loop]) auto
      done
  next
    case (PowerLoop left)
    have sub: "returns Power (Suc pos) (parse F tokens Power (Suc pos))" if "pos < length tokens"
      using that Suc.prems PowerLoop by (intro IH) simp
    have loop: "returns (PowerLoop l) p (parse F tokens (PowerLoop l) p)"
      if "Suc pos < p" "pos < length tokens" for p l
      using that Suc.prems PowerLoop by (intro IH) simp
    show ?thesis
      unfolding PowerLoop parse.simps
      apply (intro returns_if)
      subgoal
        apply (rule returns_andThen [OF sub])
         apply (auto dest: peek_Some_less)[1]
        apply (simp only: prod.case)
        apply (rule returns_weaken [OF loop])
          apply (auto dest: peek_Some_less)
        done
      subgoal by (simp add: returns_def)
      done
  next
    case MulDiv
    have sub: "returns Power pos (parse F tokens Power pos)"
      using Suc.prems MulDiv by (intro IH) simp
    have loop: "returns (MulDivLoop node) p (parse F tokens (MulDivLoop node) p)"
      if "pos < p" for p node
      using that Suc.prems MulDiv by (intro IH) simp
    show ?thesis
      unfolding MulDiv parse.simps
      apply (rule returns_andThen [OF sub])
      apply (simp only: prod.case)
      subgoal for node p by (rule returns_weaken [OF loop]) auto
      done
  next
    case (MulDivLoop node)
    have sub: "returns Power (Suc pos) (parse F tokens Power (Suc pos))" if "pos < length tokens"
      using that Suc.prems MulDivLoop by (intro IH) simp
    have loop: "returns (MulDivLoop l) p (parse F tokens (MulDivLoop l) p)"
      if "Suc pos < p" "pos < length tokens" for p l
      using that Suc.prems MulDivLoop by (intro IH) simp
    show ?thesis
      unfolding MulDivLoop parse.simps
      apply (intro returns_if)
      subgoal
        apply (rule returns_andThen [OF sub])
         apply (auto dest: peek_Some_less)[1]
        apply (simp only: prod.case)
        apply (rule returns_weaken [OF loop])
          apply (auto dest: peek_Some_less)
        done
      subgoal by (simp add: returns_def)
      done
  next
    case AddSub
    have sub: "returns MulDiv pos (parse F tokens MulDiv pos)"
      using Suc.prems AddSub by (intro IH) simp
    have loop: "returns (AddSubLoop node) p (parse F tokens (AddSubLoop node) p)"
      if "pos < p" for p node
      using that Suc.prems AddSub by (intro IH) simp
    show ?thesis
      unfolding AddSub parse.simps
      apply (rule returns_andThen [OF sub])
      apply (simp only: prod.case)
      subgoal for node p by (rule returns_weaken [OF loop]) auto
      done
  next
    case (AddSubLoop node)
    have sub: "returns MulDiv (Suc pos) (parse F tokens MulDiv (Suc pos))" if "pos < length tokens"
      using that Suc.prems AddSubLoop by (intro IH) simp
    have loop: "returns (AddSubLoop l) p (parse F tokens (AddSubLoop l) p)"
      if "Suc pos < p" "pos < length tokens" for p l
      using that Suc.prems AddSubLoop by (intro IH) simp
    show ?thesis
      unfolding AddSubLoop parse.simps
      apply (intro returns_if)
      subgoal
        apply (rule returns_andThen [OF sub])
         apply (auto dest: peek_Some_less)[1]
        apply (simp only: prod.case)
        apply (rule returns_weaken [OF loop])
          apply (auto dest: peek_Some_less)
        done
      subgoal by (simp add: returns_def)
      done
  qed
qed

text \<open>\<^verbatim>\<open>parseExpression\<close> returns on every sequence of tokens: its fuel is enough.\<close>

lemma parseExpression_returns: "\<exists>res. parseExpression tokens = Some res"
proof -
  have "returns AddSub 0 (parse (4 * length tokens + 4) tokens AddSub 0)"
    by (rule parse_returns) simp
  then show ?thesis
    by (auto simp: parseExpression_def parseWith_def parseAddSub_def andThen_def returns_def
             split: option.splits sum.splits prod.splits)
qed

subsection \<open>More fuel gives the same result\<close>

lemma extends_refl: "extends x x"
  by (simp add: extends_def)

lemma extends_if:
  "(c \<Longrightarrow> extends a a') \<Longrightarrow> (\<not> c \<Longrightarrow> extends b b') \<Longrightarrow>
   extends (if c then a else b) (if c then a' else b')"
  by simp

lemma extends_andThen:
  "extends m m' \<Longrightarrow> (\<And>node p. extends (k (node, p)) (k' (node, p))) \<Longrightarrow>
   extends (andThen m k) (andThen m' k')"
  by (auto simp: extends_def andThen_def split: option.splits sum.splits)

lemma parse_more_fuel: "extends (parse F tokens r pos) (parse (Suc F) tokens r pos)"
proof (induction F arbitrary: r pos)
  case 0
  then show ?case by (simp add: extends_def)
next
  case (Suc F)
  note IH = Suc.IH
  show ?case
  proof (cases r)
    case Primary
    show ?thesis
      unfolding Primary
      apply (subst (1 2) parse.simps(2))
      apply (unfold Let_def)
      apply (intro extends_if extends_andThen IH extends_refl)
      done
  next
    case (CallArgs name args)
    show ?thesis
      unfolding CallArgs
      apply (subst (1 2) parse.simps(3))
      apply (rule extends_andThen [OF IH])
      apply (simp only: prod.case)
      apply (intro extends_if IH extends_refl)
      done
  next
    case Power
    show ?thesis
      unfolding Power
      apply (subst (1 2) parse.simps(4))
      apply (rule extends_andThen [OF IH])
      apply (simp only: prod.case)
      apply (rule IH)
      done
  next
    case (PowerLoop left)
    show ?thesis
      unfolding PowerLoop
      apply (subst (1 2) parse.simps(5))
      apply (intro extends_if extends_refl)
      apply (rule extends_andThen [OF IH])
      apply (simp only: prod.case)
      apply (rule IH)
      done
  next
    case MulDiv
    show ?thesis
      unfolding MulDiv
      apply (subst (1 2) parse.simps(6))
      apply (rule extends_andThen [OF IH])
      apply (simp only: prod.case)
      apply (rule IH)
      done
  next
    case (MulDivLoop node)
    show ?thesis
      unfolding MulDivLoop
      apply (subst (1 2) parse.simps(7))
      apply (intro extends_if extends_refl)
      apply (rule extends_andThen [OF IH])
      apply (simp only: prod.case)
      apply (rule IH)
      done
  next
    case AddSub
    show ?thesis
      unfolding AddSub
      apply (subst (1 2) parse.simps(8))
      apply (rule extends_andThen [OF IH])
      apply (simp only: prod.case)
      apply (rule IH)
      done
  next
    case (AddSubLoop node)
    show ?thesis
      unfolding AddSubLoop
      apply (subst (1 2) parse.simps(9))
      apply (intro extends_if extends_refl)
      apply (rule extends_andThen [OF IH])
      apply (simp only: prod.case)
      apply (rule IH)
      done
  qed
qed

lemma parse_fuel_add: "extends (parse F tokens r pos) (parse (F + n) tokens r pos)"
proof (induction n)
  case 0
  show ?case by (simp add: extends_refl)
next
  case (Suc n)
  with parse_more_fuel [of "F + n" tokens r pos] show ?case
    by (auto simp: extends_def)
qed

text \<open>Any fuel from \<open>4 \<times> length tokens + 4\<close> on gives the result of \<^verbatim>\<open>parseExpression\<close>.\<close>

lemma parseWith_more_fuel:
  "4 * length tokens + 4 \<le> F \<Longrightarrow> parseWith F tokens = parseExpression tokens"
proof -
  assume "4 * length tokens + 4 \<le> F"
  then obtain n where F: "F = (4 * length tokens + 4) + n"
    using le_Suc_ex by blast
  have "returns AddSub 0 (parse (4 * length tokens + 4) tokens AddSub 0)"
    by (rule parse_returns) simp
  then have "parse (4 * length tokens + 4) tokens AddSub 0 \<noteq> None"
    by (auto simp: returns_def split: option.splits)
  with parse_fuel_add [of "4 * length tokens + 4" tokens AddSub 0 n]
  have "parse F tokens AddSub 0 = parse (4 * length tokens + 4) tokens AddSub 0"
    by (simp add: extends_def F)
  then show ?thesis
    by (simp add: parseExpression_def parseWith_def parseAddSub_def)
qed

section \<open>The lexer has no token \<^verbatim>\<open>**\<close>\<close>

text \<open>
  No match of the token expression is the token \<^verbatim>\<open>**\<close>: where the input has \<^verbatim>\<open>**\<close> the
  fourth alternative has already matched the first \<^verbatim>\<open>*\<close>.
\<close>

lemma matchToken_never_power: "matchToken s = Some (tok, rest) \<Longrightarrow> tok \<noteq> ''**''"
proof (cases s)
  case Nil
  then show "matchToken s = Some (tok, rest) \<Longrightarrow> tok \<noteq> ''**''"
    by (simp add: matchToken_def)
next
  case (Cons c cs)
  assume m: "matchToken s = Some (tok, rest)"
  have star: "\<not> isDigit CHR ''*''" "\<not> isIdentStart CHR ''*''"
    by (simp_all add: isDigit_def isIdentStart_def isLetter_def)
  show "tok \<noteq> ''**''"
  proof
    assume t: "tok = ''**''"
    show False
    proof (cases "isIdentStart c")
      case True
      with m Cons t star show False by (auto simp: matchToken_def Let_def)
    next
      case False
      note notIdent = False
      show False
      proof (cases "isDigit c")
        case True
        with m Cons t star notIdent show False
          by (auto simp: matchToken_def Let_def split: if_splits)
      next
        case False
        with m Cons t star notIdent show False
          by (auto simp: matchToken_def Let_def split: if_splits)
      qed
    qed
  qed
qed

section \<open>Precedence and the power operator\<close>

lemma tokenize_1_plus_2_times_3:
  "tokenize ''1+2*3'' = Inr [''1'', ''+'', ''2'', ''*'', ''3'']"
  by code_simp

lemma parse_1_plus_2_times_3:
  "parseExpression [''1'', ''+'', ''2'', ''*'', ''3''] =
     Some (Inr (OpNode ''+'' [NumNode \<lparr>re = Num 1, im = Num 0\<rparr>,
                  OpNode ''*'' [NumNode \<lparr>re = Num 2, im = Num 0\<rparr>,
                                NumNode \<lparr>re = Num 3, im = Num 0\<rparr>]]))"
  by code_simp

text \<open>\<^verbatim>\<open>1+2*3\<close> is \<^verbatim>\<open>1+(2*3)\<close> and evaluates to 7.\<close>

lemma run_1_plus_2_times_3:
  "runExpression ''1+2*3'' vars = Some (Inr \<lparr>re = Num 7, im = Num 0\<rparr>)"
  by (simp add: runExpression_def tokenize_1_plus_2_times_3 parse_1_plus_2_times_3
      Complex_add_def Complex_mul_def Complex_new_def orElse_def falsy_def fsub_def)

lemma tokenize_caret:
  "tokenize ''2^3^2'' = Inr [''2'', ''^'', ''3'', ''^'', ''2'']"
  by code_simp

lemma parse_caret:
  "parseExpression [''2'', ''^'', ''3'', ''^'', ''2''] =
     Some (Inr (OpNode ''**'' [NumNode \<lparr>re = Num 2, im = Num 0\<rparr>,
                  OpNode ''**'' [NumNode \<lparr>re = Num 3, im = Num 0\<rparr>,
                                 NumNode \<lparr>re = Num 2, im = Num 0\<rparr>]]))"
  by code_simp

lemma pow_3_2: "Complex_pow \<lparr>re = Num 3, im = Num 0\<rparr> (Num 2) = \<lparr>re = Num 9, im = Num 0\<rparr>"
  by (simp add: Complex_pow_def Complex_abs_def Complex_new_def orElse_def falsy_def)

lemma pow_2_9: "Complex_pow \<lparr>re = Num 2, im = Num 0\<rparr> (Num 9) = \<lparr>re = Num 512, im = Num 0\<rparr>"
  by (simp add: Complex_pow_def Complex_abs_def Complex_new_def orElse_def falsy_def)

text \<open>Written with \<^verbatim>\<open>^\<close>, the power operator is right-associative: \<^verbatim>\<open>2^3^2\<close> is 512.\<close>

lemma run_caret:
  "runExpression ''2^3^2'' vars = Some (Inr \<lparr>re = Num 512, im = Num 0\<rparr>)"
  by (simp add: runExpression_def tokenize_caret parse_caret pow_3_2 pow_2_9)

lemma tokenize_power_stars:
  "tokenize ''2**3**2'' = Inr [''2'', ''*'', ''*'', ''3'', ''*'', ''*'', ''2'']"
  by code_simp

lemma parse_power_stars:
  "parseExpression [''2'', ''*'', ''*'', ''3'', ''*'', ''*'', ''2''] =
     Some (Inl (InvalidPrimary ''*''))"
  by code_simp

text \<open>
  C1. The claim: \<^verbatim>\<open>1+2*3\<close> evaluates to 7 and \<^verbatim>\<open>2**3**2\<close> to 512, the power operator
  being written \<^verbatim>\<open>**\<close> or \<^verbatim>\<open>^\<close>. The first half holds (\<open>run_1_plus_2_times_3\<close>), and so
  does the second when the operator is written \<^verbatim>\<open>^\<close> (\<open>run_caret\<close>). Written \<^verbatim>\<open>**\<close> it
  fails: the lexer splits \<^verbatim>\<open>**\<close> into two tokens \<^verbatim>\<open>*\<close>, against the comment of \<^verbatim>\<open>tokenize\<close>
  that the expression reads \<^verbatim>\<open>**\<close> as one token, and the parser, which knows the power
  operator as the one token \<^verbatim>\<open>**\<close>, reads the second \<^verbatim>\<open>*\<close> where an operand has to
  start. Running \<^verbatim>\<open>2**3**2\<close> ends with the error \<open>InvalidPrimary\<close> of \<^verbatim>\<open>*\<close>.
\<close>

theorem power_stars_is_invalid_primary:
  "tokenize ''2**3**2'' = Inr [''2'', ''*'', ''*'', ''3'', ''*'', ''*'', ''2''] \<and>
   parseExpression [''2'', ''*'', ''*'', ''3'', ''*'', ''*'', ''2''] =
     Some (Inl (InvalidPrimary ''*'')) \<and>
   runExpression ''2**3**2'' vars = Some (Inl (InvalidPrimary ''*''))"
  by (simp add: runExpression_def tokenize_power_stars parse_power_stars)

section \<open>Variables and their bound text\<close>

lemma fromString_error:
  "Complex_fromString s = Inl e \<Longrightarrow> trim s = [] \<and> e = EmptyComplexLiteral"
  by (auto simp: Complex_fromString_def Let_def split: if_splits option.splits)

lemma fromString_abc: "Complex_fromString ''abc'' = Inr \<lparr>re = Num 0, im = Num 0\<rparr>"
  by code_simp

text \<open>
  C2. The claim: a variable whose bound text is not a valid complex literal, such as
  \<^verbatim>\<open>abc\<close>, makes the evaluation fail with the parse error of the literal grammar.
  Counterexample: with \<^verbatim>\<open>x\<close> bound to \<^verbatim>\<open>abc\<close> the evaluation of \<^verbatim>\<open>x\<close> returns the value 0.
  \<^verbatim>\<open>Number("abc")\<close> is \<open>NaN\<close>, and the constructor turns it into 0.
\<close>

theorem malformed_binding_returns_zero:
  "evalAst (VarNode (Some ''x'')) [''x'' \<mapsto> ''abc''] = Inr \<lparr>re = Num 0, im = Num 0\<rparr>"
  by (simp add: tokText_def fromString_abc)

text \<open>
  C2, as amended. The evaluation of a bound variable is \<^verbatim>\<open>Complex.fromString\<close> of the bound
  text. It fails, with \<open>EmptyComplexLiteral\<close>, when the text is empty or white space
  only, and returns a value for every other text.
\<close>

theorem bound_variable_fails_only_when_blank:
  "vars (tokText name) = Some s \<Longrightarrow>
     evalAst (VarNode name) vars = Complex_fromString s \<and>
     (trim s = [] \<longrightarrow> evalAst (VarNode name) vars = Inl EmptyComplexLiteral) \<and>
     (trim s \<noteq> [] \<longrightarrow> (\<exists>v. evalAst (VarNode name) vars = Inr v))"
proof -
  assume b: "vars (tokText name) = Some s"
  then have e: "evalAst (VarNode name) vars = Complex_fromString s" by simp
  have blank: "trim s = [] \<longrightarrow> Complex_fromString s = Inl EmptyComplexLiteral"
    by (simp add: Complex_fromString_def)
  have nonblank: "trim s \<noteq> [] \<longrightarrow> (\<exists>v. Complex_fromString s = Inr v)"
    using fromString_error [of s] by (cases "Complex_fromString s") auto
  from e blank nonblank show ?thesis by simp
qed

theorem bound_variable_fails_only_when_blank_witness:
  "[''x'' \<mapsto> ''abc''] (tokText (Some ''x'')) = Some ''abc'' \<and>
   trim ''abc'' \<noteq> [] \<and>
   (\<exists>v. evalAst (VarNode (Some ''x'')) [''x'' \<mapsto> ''abc''] = Inr v)"
proof -
  have h: "[''x'' \<mapsto> ''abc''] (tokText (Some ''x'')) = Some ''abc''"
    by (simp add: tokText_def)
  have t: "trim ''abc'' \<noteq> []" by code_simp
  from bound_variable_fails_only_when_blank
         [of "[''x'' \<mapsto> ''abc'']" "Some ''x''" "''abc''"] t h
  show ?thesis by blast
qed

section \<open>The order of evaluation of the operands\<close>

text \<open>
  C3. The claim: every binary operator, division included, evaluates its left operand
  first, so that the error of the left operand is the one reported when both fail.
  Counterexample: \<^verbatim>\<open>x / y\<close> with neither variable bound reports \<^verbatim>\<open>y\<close>, the right operand.
\<close>

theorem division_reports_right_operand:
  "evalAst (OpNode ''/'' [VarNode (Some ''x''), VarNode (Some ''y'')]) Map.empty =
     Inl (UnboundVariable ''y'')"
  by (simp add: tokText_def)

text \<open>
  C3, as amended. For addition, subtraction, multiplication and power the left operand
  is evaluated first: when it fails, its error is the error of the node, whatever the
  right operand does. Division evaluates its right operand first, for the zero check:
  when the right operand fails, its error is the error of the node, whatever the left
  operand does.
\<close>

theorem operand_evaluation_order:
  "(op \<in> set [''+'', ''-'', ''*'', ''**''] \<and> evalAst l vars = Inl e \<longrightarrow>
      evalAst (OpNode op [l, r]) vars = Inl e) \<and>
   (evalAst r vars = Inl e \<longrightarrow> evalAst (OpNode ''/'' [l, r]) vars = Inl e)"
  by auto

theorem operand_evaluation_order_witness:
  "''+'' \<in> set [''+'', ''-'', ''*'', ''**''] \<and>
   evalAst (VarNode (Some ''x'')) Map.empty = Inl (UnboundVariable ''x'') \<and>
   evalAst (VarNode (Some ''y'')) Map.empty = Inl (UnboundVariable ''y'') \<and>
   evalAst (OpNode ''+'' [VarNode (Some ''x''), VarNode (Some ''y'')]) Map.empty =
     Inl (UnboundVariable ''x'') \<and>
   evalAst (OpNode ''/'' [VarNode (Some ''x''), VarNode (Some ''y'')]) Map.empty =
     Inl (UnboundVariable ''y'')"
proof -
  have x: "evalAst (VarNode (Some ''x'')) Map.empty = Inl (UnboundVariable ''x'')"
    by (simp add: tokText_def)
  have y: "evalAst (VarNode (Some ''y'')) Map.empty = Inl (UnboundVariable ''y'')"
    by (simp add: tokText_def)
  have m: "''+'' \<in> set [''+'', ''-'', ''*'', ''**'']" by simp
  from operand_evaluation_order
         [of "''+''" "VarNode (Some ''x'')" Map.empty "UnboundVariable ''x''" "VarNode (Some ''y'')"]
       operand_evaluation_order
         [of "''+''" "VarNode (Some ''x'')" Map.empty "UnboundVariable ''y''" "VarNode (Some ''y'')"]
       x y m
  show ?thesis by blast
qed

section \<open>Division by zero\<close>

lemma tokenize_1_div_0: "tokenize ''1/0'' = Inr [''1'', ''/'', ''0'']"
  by code_simp

lemma parse_1_div_0:
  "parseExpression [''1'', ''/'', ''0''] =
     Some (Inr (OpNode ''/'' [NumNode \<lparr>re = Num 1, im = Num 0\<rparr>,
                              NumNode \<lparr>re = Num 0, im = Num 0\<rparr>]))"
  by code_simp

lemma tokenize_1_div_x: "tokenize ''1/x'' = Inr [''1'', ''/'', ''x'']"
  by code_simp

lemma parse_1_div_x:
  "parseExpression [''1'', ''/'', ''x''] =
     Some (Inr (OpNode ''/'' [NumNode \<lparr>re = Num 1, im = Num 0\<rparr>, VarNode (Some ''x'')]))"
  by code_simp

lemma fromString_0: "Complex_fromString ''0'' = Inr \<lparr>re = Num 0, im = Num 0\<rparr>"
  by code_simp

text \<open>
  C4. A division node whose right operand evaluates to \<open>(0, 0)\<close> fails with
  \<open>DivisionByZero\<close>, raised by the evaluator before the left operand is evaluated and
  before \<^verbatim>\<open>Complex.div\<close> is called; \<^verbatim>\<open>Complex.div\<close> fails with \<open>DivisionByZero\<close> of its own when
  the squared modulus of the divisor is 0; running \<^verbatim>\<open>1/0\<close>, and \<^verbatim>\<open>1/x\<close> with \<^verbatim>\<open>x\<close> bound to
  \<^verbatim>\<open>0\<close>, fails with \<open>DivisionByZero\<close>.
\<close>

theorem division_by_zero_checks:
  "(evalAst r vars = Inr \<lparr>re = Num 0, im = Num 0\<rparr> \<longrightarrow>
      evalAst (OpNode ''/'' [l, r]) vars = Inl (DivisionByZero DuringEvaluation)) \<and>
   (seq (fadd (fmul (re b) (re b)) (fmul (im b) (im b))) (Num 0) \<longrightarrow>
      Complex_div a b = Inl (DivisionByZero ComplexZero)) \<and>
   runExpression ''1/0'' vars = Some (Inl (DivisionByZero DuringEvaluation)) \<and>
   runExpression ''1/x'' [''x'' \<mapsto> ''0''] = Some (Inl (DivisionByZero DuringEvaluation))"
  by (simp add: Complex_div_def runExpression_def tokenize_1_div_0 parse_1_div_0
      tokenize_1_div_x parse_1_div_x tokText_def fromString_0)

theorem division_by_zero_checks_witness:
  "evalAst (NumNode \<lparr>re = Num 0, im = Num 0\<rparr>) Map.empty = Inr \<lparr>re = Num 0, im = Num 0\<rparr> \<and>
   evalAst (OpNode ''/'' [VarNode (Some ''u''), NumNode \<lparr>re = Num 0, im = Num 0\<rparr>]) Map.empty =
     Inl (DivisionByZero DuringEvaluation) \<and>
   seq (fadd (fmul (Num 0) (Num 0)) (fmul (Num 0) (Num 0))) (Num 0) \<and>
   Complex_div \<lparr>re = Num 1, im = Num 0\<rparr> \<lparr>re = Num 0, im = Num 0\<rparr> =
     Inl (DivisionByZero ComplexZero)"
  using division_by_zero_checks
          [of "NumNode \<lparr>re = Num 0, im = Num 0\<rparr>" Map.empty "VarNode (Some ''u'')"
              "\<lparr>re = Num 0, im = Num 0\<rparr>" "\<lparr>re = Num 1, im = Num 0\<rparr>"]
  by simp

section \<open>Rendering\<close>

lemma tokenize_3_plus_4_times_i:
  "tokenize ''3+4*i'' = Inr [''3'', ''+'', ''4'', ''*'', ''i'']"
  by code_simp

lemma parse_3_plus_4_times_i:
  "parseExpression [''3'', ''+'', ''4'', ''*'', ''i''] =
     Some (Inr (OpNode ''+'' [NumNode \<lparr>re = Num 3, im = Num 0\<rparr>,
                  OpNode ''*'' [NumNode \<lparr>re = Num 4, im = Num 0\<rparr>,
                                NumNode \<lparr>re = Num 0, im = Num 1\<rparr>]]))"
  by code_simp

lemma lisp_3_plus_4_times_i:
  "astToLisp (OpNode ''+'' [NumNode \<lparr>re = Num 3, im = Num 0\<rparr>,
                OpNode ''*'' [NumNode \<lparr>re = Num 4, im = Num 0\<rparr>,
                              NumNode \<lparr>re = Num 0, im = Num 1\<rparr>]]) =
     Some ''(+ 3 (* 4 i))''"
  by code_simp

text \<open>
  C5. Rendering the parse of \<^verbatim>\<open>3+4*i\<close> gives exactly \<^verbatim>\<open>(+ 3 (* 4 i))\<close>: the token \<^verbatim>\<open>*\<close> stands
  between the numeral 4 and the token \<^verbatim>\<open>i\<close>, so \<^verbatim>\<open>4*i\<close> is the product of the literal 4
  and the literal \<^verbatim>\<open>i\<close> (the value \<open>(0, 1)\<close>), not the one literal \<^verbatim>\<open>4i\<close>, and every literal
  is printed in the text form of \<^verbatim>\<open>Complex\<close>.
\<close>

theorem render_3_plus_4_times_i:
  "tokenize ''3+4*i'' = Inr [''3'', ''+'', ''4'', ''*'', ''i''] \<and>
   parseExpression [''3'', ''+'', ''4'', ''*'', ''i''] =
     Some (Inr (OpNode ''+'' [NumNode \<lparr>re = Num 3, im = Num 0\<rparr>,
                  OpNode ''*'' [NumNode \<lparr>re = Num 4, im = Num 0\<rparr>,
                                NumNode \<lparr>re = Num 0, im = Num 1\<rparr>]])) \<and>
   renderExpression ''3+4*i'' = Some (Inr (Some ''(+ 3 (* 4 i))''))"
  by (simp add: renderExpression_def tokenize_3_plus_4_times_i parse_3_plus_4_times_i
      lisp_3_plus_4_times_i del: astToLisp.simps)

section \<open>The round trip through text\<close>

text \<open>The round trip is exact where the imaginary part is a plain numeral other than 1.\<close>

lemma round_trip_3_plus_4i:
  "Complex_toString \<lparr>re = Num 3, im = Num 4\<rparr> = ''3+4i'' \<and>
   Complex_fromString ''3+4i'' = Inr \<lparr>re = Num 3, im = Num 4\<rparr>"
  by code_simp

lemma round_trip_minus_2_minus_5i:
  "Complex_toString \<lparr>re = Num (- 2), im = Num (- 5)\<rparr> = ''-2-5i'' \<and>
   Complex_fromString ''-2-5i'' = Inr \<lparr>re = Num (- 2), im = Num (- 5)\<rparr>"
  by code_simp

lemma toString_1_plus_i: "Complex_toString (Complex_new (Num 1) (Num 1)) = ''1+i''"
  by code_simp

lemma fromString_1_plus_i: "Complex_fromString ''1+i'' = Inr \<lparr>re = Num 1, im = Num 0\<rparr>"
  by code_simp

text \<open>
  C6. The claim: \<^verbatim>\<open>fromString(toString(z))\<close> is approximately \<open>z\<close>, within \<open>10\<^sup>-\<^sup>8\<close>. It fails at
  \<open>z = 1 + i\<close>. \<^verbatim>\<open>toString\<close> writes an imaginary part of 1 as the bare \<^verbatim>\<open>i\<close>, here
  \<^verbatim>\<open>1+i\<close>; \<^verbatim>\<open>fromString\<close> knows the bare \<^verbatim>\<open>i\<close> only when nothing or a sign alone stands
  before it, splits \<^verbatim>\<open>1+\<close> into \<^verbatim>\<open>1\<close> and \<^verbatim>\<open>+\<close>, and \<^verbatim>\<open>Number("+")\<close> is \<open>NaN\<close>, which the
  constructor turns into 0. The text \<^verbatim>\<open>1+i\<close> reads back as 1.
\<close>

theorem round_trip_fails_at_1_plus_i:
  "Complex_toString (Complex_new (Num 1) (Num 1)) = ''1+i'' \<and>
   Complex_fromString ''1+i'' = Inr \<lparr>re = Num 1, im = Num 0\<rparr> \<and>
   \<not> Complex_approxEquals \<lparr>re = Num 1, im = Num 0\<rparr> (Complex_new (Num 1) (Num 1))
        (Num (1 / 10 ^ 8))"
proof -
  have "\<not> Complex_approxEquals \<lparr>re = Num 1, im = Num 0\<rparr> (Complex_new (Num 1) (Num 1))
          (Num (1 / 10 ^ 8))"
    by (simp add: Complex_approxEquals_def Complex_new_def orElse_def falsy_def fsub_def)
  with toString_1_plus_i fromString_1_plus_i show ?thesis by blast
qed

text \<open>
  A second way to lose the value: a part that \<^verbatim>\<open>String\<close> writes with an exponent.
  \<open>10\<^sup>-\<^sup>7 i\<close> is written \<^verbatim>\<open>1e-7i\<close>, and the sign of the exponent is taken for the sign
  between the real and the imaginary part.
\<close>

lemma posToString_small: "posToString (1 / 10000000) = ''1e-7''"
proof -
  have d: "decExp (1 / 10000000) = - 6"
    by (simp add: decExp_def)
  have s: "sigDigits (1 / 10000000) = (1, 1)"
    by (simp add: sigDigits_def d scale10_def upt_rec)
  show ?thesis
    by (simp add: posToString_def d s Let_def)
qed

lemma toString_small_imaginary:
  "Complex_toString (Complex_new (Num 0) (Num (1 / 10 ^ 7))) = ''1e-7i''"
  by (simp add: Complex_toString_def Complex_new_def orElse_def falsy_def posToString_small)

lemma fromString_small_imaginary:
  "Complex_fromString ''1e-7i'' = Inr \<lparr>re = Num 0, im = Num (- 7)\<rparr>"
  by code_simp

section \<open>Complex exponents\<close>

text \<open>
  A power node whose operands evaluate: a complex exponent is rejected, and a real one
  is handed to \<^verbatim>\<open>Complex.pow\<close>.
\<close>

lemma power_node:
  "evalAst base vars = Inr b \<Longrightarrow> evalAst ex vars = Inr x \<Longrightarrow>
   evalAst (OpNode ''**'' [base, ex]) vars =
     (if seq (im x) (Num 0) then Inr (Complex_pow b (re x)) else Inl ComplexExponentUnsupported)"
  by simp

lemma tokenize_caret_complex:
  "tokenize ''2^(1+1i)'' = Inr [''2'', ''^'', ''('', ''1'', ''+'', ''1'', ''i'', '')'']"
  by code_simp

lemma parse_caret_complex:
  "parseExpression [''2'', ''^'', ''('', ''1'', ''+'', ''1'', ''i'', '')''] =
     Some (Inr (OpNode ''**'' [NumNode \<lparr>re = Num 2, im = Num 0\<rparr>,
                  OpNode ''+'' [NumNode \<lparr>re = Num 1, im = Num 0\<rparr>,
                                NumNode \<lparr>re = Num 0, im = Num 1\<rparr>]]))"
  by code_simp

text \<open>Written with \<^verbatim>\<open>^\<close>, the complex exponent is rejected as the claim says.\<close>

lemma run_caret_complex:
  "runExpression ''2^(1+1i)'' vars = Some (Inl ComplexExponentUnsupported)"
  by (simp add: runExpression_def tokenize_caret_complex parse_caret_complex
      Complex_add_def Complex_new_def orElse_def falsy_def)

lemma tokenize_stars_complex:
  "tokenize ''2**(1+1i)'' = Inr [''2'', ''*'', ''*'', ''('', ''1'', ''+'', ''1'', ''i'', '')'']"
  by code_simp

lemma parse_stars_complex:
  "parseExpression [''2'', ''*'', ''*'', ''('', ''1'', ''+'', ''1'', ''i'', '')''] =
     Some (Inl (InvalidPrimary ''*''))"
  by code_simp

text \<open>
  C8. The claim: a power node with an exponent of nonzero imaginary part fails with
  \<open>ComplexExponentUnsupported\<close>, a real exponent goes to \<^verbatim>\<open>Complex.pow\<close>, and \<^verbatim>\<open>2**(1+1i)\<close>
  fails with \<open>ComplexExponentUnsupported\<close>. The evaluator does what the claim says
  (\<open>power_node\<close>, \<open>run_caret_complex\<close>), but the text \<^verbatim>\<open>2**(1+1i)\<close> never gets there: the
  lexer splits \<^verbatim>\<open>**\<close> into two tokens \<^verbatim>\<open>*\<close>, and the run ends in the parser with
  \<open>InvalidPrimary\<close> of \<^verbatim>\<open>*\<close>.
\<close>

theorem complex_exponent_stars_is_invalid_primary:
  "tokenize ''2**(1+1i)'' =
     Inr [''2'', ''*'', ''*'', ''('', ''1'', ''+'', ''1'', ''i'', '')''] \<and>
   runExpression ''2**(1+1i)'' vars = Some (Inl (InvalidPrimary ''*''))"
  by (simp add: runExpression_def tokenize_stars_complex parse_stars_complex)

section \<open>Components that are not finite\<close>

lemma carried_new: "carried r (re (Complex_new r i)) \<and> carried i (im (Complex_new r i))"
  by (auto simp: carried_def Complex_new_def orElse_def falsy_def)

text \<open>
  C9. The claim: an operation whose result has a component that is \<open>NaN\<close> or infinite
  yields a complex value with that component unchanged. Counterexample: the real part
  of \<open>\<infinity> + (-\<infinity>)\<close> is \<open>NaN\<close>, and the sum of the complex values \<open>(\<infinity>, 0)\<close> and \<open>(-\<infinity>, 0)\<close> has
  the real part 0.
\<close>

theorem nan_component_becomes_zero:
  "fadd (re \<lparr>re = PInf, im = Num 0\<rparr>) (re \<lparr>re = NInf, im = Num 0\<rparr>) = NaN \<and>
   re (Complex_add \<lparr>re = PInf, im = Num 0\<rparr> \<lparr>re = NInf, im = Num 0\<rparr>) = Num 0"
  by (simp add: Complex_add_def Complex_new_def orElse_def falsy_def)

text \<open>
  C9, as amended. No invariant keeps the components finite: for each of \<^verbatim>\<open>add\<close>, \<^verbatim>\<open>sub\<close>,
  \<^verbatim>\<open>mul\<close>, \<^verbatim>\<open>div\<close> and \<^verbatim>\<open>pow\<close>, a component the operation computes as an infinity is
  that infinity in the result. A component it computes as \<open>NaN\<close> is 0 in the result: the
  constructor replaces \<open>NaN\<close> by 0 (\<^verbatim>\<open>Number(re) || 0\<close>), and no complex value \<^verbatim>\<open>add\<close> returns
  has a \<open>NaN\<close> component.
\<close>

theorem non_finite_components:
  "carried (fadd (re a) (re b)) (re (Complex_add a b)) \<and>
   carried (fadd (im a) (im b)) (im (Complex_add a b)) \<and>
   carried (fsub (re a) (re b)) (re (Complex_sub a b)) \<and>
   carried (fsub (im a) (im b)) (im (Complex_sub a b)) \<and>
   carried (fsub (fmul (re a) (re b)) (fmul (im a) (im b))) (re (Complex_mul a b)) \<and>
   carried (fadd (fmul (re a) (im b)) (fmul (im a) (re b))) (im (Complex_mul a b)) \<and>
   (\<forall>q. Complex_div a b = Inr q \<longrightarrow>
      carried (fdiv (fadd (fmul (re a) (re b)) (fmul (im a) (im b)))
                    (fadd (fmul (re b) (re b)) (fmul (im b) (im b)))) (re q) \<and>
      carried (fdiv (fsub (fmul (im a) (re b)) (fmul (re a) (im b)))
                    (fadd (fmul (re b) (re b)) (fmul (im b) (im b)))) (im q)) \<and>
   carried (fmul (fpow (Complex_abs a) n) (fcos (fmul (atan2 (im a) (re a)) n)))
           (re (Complex_pow a n)) \<and>
   carried (fmul (fpow (Complex_abs a) n) (fsin (fmul (atan2 (im a) (re a)) n)))
           (im (Complex_pow a n)) \<and>
   re (Complex_add a b) \<noteq> NaN \<and> im (Complex_add a b) \<noteq> NaN"
  using carried_new
  by (auto simp: Complex_add_def Complex_sub_def Complex_mul_def Complex_div_def
                 Complex_pow_def Let_def split: if_splits)
     (auto simp: Complex_new_def orElse_def falsy_def split: if_splits)

theorem non_finite_components_witness:
  "fadd (re \<lparr>re = PInf, im = Num 0\<rparr>) (re \<lparr>re = Num 1, im = Num 0\<rparr>) = PInf \<and>
   re (Complex_add \<lparr>re = PInf, im = Num 0\<rparr> \<lparr>re = Num 1, im = Num 0\<rparr>) = PInf \<and>
   fsub (fmul (im \<lparr>re = PInf, im = Num 0\<rparr>) (re \<lparr>re = Num 1, im = Num 0\<rparr>))
        (fmul (re \<lparr>re = PInf, im = Num 0\<rparr>) (im \<lparr>re = Num 1, im = Num 0\<rparr>)) = NaN \<and>
   Complex_div \<lparr>re = PInf, im = Num 0\<rparr> \<lparr>re = Num 1, im = Num 0\<rparr> =
     Inr \<lparr>re = PInf, im = Num 0\<rparr>"
  using non_finite_components
          [of "\<lparr>re = PInf, im = Num 0\<rparr>" "\<lparr>re = Num 1, im = Num 0\<rparr>" "Num 1"]
  by (simp add: carried_def Complex_add_def Complex_div_def Complex_new_def orElse_def falsy_def
      fsub_def signedInf_def)

section \<open>The equivalence tester\<close>




lemma tokenize_0_caret_minus_1: "tokenize ''0^-1'' = Inr [''0'', ''^'', ''-'', ''1'']"
  by code_simp

lemma parse_0_caret_minus_1:
  "parseExpression [''0'', ''^'', ''-'', ''1''] =
     Some (Inr (OpNode ''**'' [NumNode \<lparr>re = Num 0, im = Num 0\<rparr>,
                  OpNode ''neg'' [NumNode \<lparr>re = Num 1, im = Num 0\<rparr>]]))"
  by code_simp






text \<open>
  \<^verbatim>\<open>x+1\<close> against \<^verbatim>\<open>x+2\<close> is not equivalent in the first round. With every random value
  \<open>1/2\<close> the binding of \<^verbatim>\<open>x\<close> is the text \<^verbatim>\<open>0+0i\<close>, and the values are 1 and 2.
\<close>

lemma sampleText_half: "sampleText (\<lambda>k. 1 / 2) k = ''0+0i''"
  by (simp add: sampleText_def fsub_def)

lemma fromString_zero_sample: "Complex_fromString ''0+0i'' = Inr \<lparr>re = Num 0, im = Num 0\<rparr>"
  by code_simp

lemma toString_1: "Complex_toString \<lparr>re = Num 1, im = Num 0\<rparr> = ''1''"
  by code_simp

lemma toString_2: "Complex_toString \<lparr>re = Num 2, im = Num 0\<rparr> = ''2''"
  by code_simp

lemma not_equivalent_in_first_round:
  "expressionsEquivalent
     (OpNode ''+'' [VarNode (Some ''x''), NumNode \<lparr>re = Num 1, im = Num 0\<rparr>])
     (OpNode ''+'' [VarNode (Some ''x''), NumNode \<lparr>re = Num 2, im = Num 0\<rparr>])
     8 (\<lambda>k. 1 / 2) =
   NotEqual (emptyObject(''x'' \<mapsto> ''0+0i'')) ''1'' ''2''"
proof -
  have names: "collectVars (OpNode ''+'' [VarNode (Some ''x''), NumNode \<lparr>re = Num 2, im = Num 0\<rparr>])
                 (collectVars (OpNode ''+'' [VarNode (Some ''x''), NumNode \<lparr>re = Num 1, im = Num 0\<rparr>]) []) =
               [Some ''x'']"
    by (simp add: setAdd_def)
  have asg: "assignment [Some ''x''] (\<lambda>k. 1 / 2) 0 = emptyObject(''x'' \<mapsto> ''0+0i'')"
    by (simp add: assignment_def setProperty_def tokText_def sampleText_half)
  have v1: "evalAst (OpNode ''+'' [VarNode (Some ''x''), NumNode \<lparr>re = Num 1, im = Num 0\<rparr>])
              (emptyObject(''x'' \<mapsto> ''0+0i'')) = Inr \<lparr>re = Num 1, im = Num 0\<rparr>"
    by (simp add: tokText_def fromString_zero_sample Complex_add_def Complex_new_def
        orElse_def falsy_def)
  have v2: "evalAst (OpNode ''+'' [VarNode (Some ''x''), NumNode \<lparr>re = Num 2, im = Num 0\<rparr>])
              (emptyObject(''x'' \<mapsto> ''0+0i'')) = Inr \<lparr>re = Num 2, im = Num 0\<rparr>"
    by (simp add: tokText_def fromString_zero_sample Complex_add_def Complex_new_def
        orElse_def falsy_def)
  have far: "\<not> Complex_approxEquals \<lparr>re = Num 1, im = Num 0\<rparr> \<lparr>re = Num 2, im = Num 0\<rparr>
                 (Num (1 / 1000000))"
    by (simp add: Complex_approxEquals_def fsub_def)
  show ?thesis
    unfolding expressionsEquivalent_def names
    by (subst trialsFrom.simps) (simp add: asg v1 v2 far toString_1 toString_2 del: evalAst.simps)
qed

text \<open>
  A variable named \<^verbatim>\<open>__proto__\<close> gets no sample: the round binds it to the text of the
  prototype object, and it evaluates to 0.
\<close>

lemma fromString_object: "Complex_fromString ''[object Object]'' = Inr \<lparr>re = Num 0, im = Num 0\<rparr>"
  by code_simp

lemma proto_variable_is_zero:
  "evalAst (VarNode (Some ''__proto__'')) (assignment [Some ''__proto__''] rnd t) =
     Inr \<lparr>re = Num 0, im = Num 0\<rparr>"
  by (simp add: assignment_def setProperty_def emptyObject_def tokText_def fromString_object)

section \<open>Reading past the end of the tokens\<close>

lemma peek_end: "length tokens \<le> pos \<Longrightarrow> peek tokens pos = None"
  by (simp add: peek_def)

text \<open>
  \<^verbatim>\<open>undefined\<close> reads as the text \<^verbatim>\<open>undefined\<close> in the tests of \<^verbatim>\<open>parsePrimary\<close>: it is no
  number and it is an identifier.
\<close>

lemma undefined_is_identifier: "\<not> isNumberToken None \<and> isIdentToken None"
  by code_simp

lemma parse_empty: "parseExpression [] = Some (Inr (VarNode None))"
  by code_simp

lemma tokenize_1_plus: "tokenize ''1+'' = Inr [''1'', ''+'']"
  by code_simp

lemma parse_1_plus:
  "parseExpression [''1'', ''+''] =
     Some (Inr (OpNode ''+'' [NumNode \<lparr>re = Num 1, im = Num 0\<rparr>, VarNode None]))"
  by code_simp

subsection \<open>An operator put after the tokens\<close>

text \<open>An entry that is no loop reads a token, counting the one past the end.\<close>

lemma parse_advances:
  assumes "parse F tokens r pos = Some (Inr (node, p))"
  shows "if isLoop r then pos \<le> p else pos < p"
proof -
  let ?n = "need r (length tokens - pos)"
  from parse_fuel_add [of F tokens r pos ?n] assms
  have "parse (F + ?n) tokens r pos = Some (Inr (node, p))"
    by (simp add: extends_def)
  moreover have "returns r pos (parse (F + ?n) tokens r pos)"
    by (rule parse_returns) simp
  ultimately show ?thesis by (simp add: returns_def)
qed

text \<open>
  Past the end of the tokens a loop returns at once, and an entry that is no loop returns
  the variable node of \<^verbatim>\<open>undefined\<close>.
\<close>

lemma loop_beyond:
  "length tokens \<le> pos \<Longrightarrow> parse (Suc f) tokens (PowerLoop n) pos = Some (Inr (n, pos))"
  "length tokens \<le> pos \<Longrightarrow> parse (Suc f) tokens (MulDivLoop n) pos = Some (Inr (n, pos))"
  "length tokens \<le> pos \<Longrightarrow> parse (Suc f) tokens (AddSubLoop n) pos = Some (Inr (n, pos))"
  by (simp_all add: peek_end)

lemma entry_exhausted:
  "length tokens \<le> pos \<Longrightarrow>
     parse (Suc f) tokens Primary pos = Some (Inr (VarNode None, Suc pos))"
  "length tokens \<le> pos \<Longrightarrow>
     parse (Suc (Suc f)) tokens Power pos = Some (Inr (VarNode None, Suc pos))"
  "length tokens \<le> pos \<Longrightarrow>
     parse (Suc (Suc (Suc f))) tokens MulDiv pos = Some (Inr (VarNode None, Suc pos))"
  "length tokens \<le> pos \<Longrightarrow>
     parse (Suc (Suc (Suc (Suc f)))) tokens AddSub pos = Some (Inr (VarNode None, Suc pos))"
  by (simp_all add: peek_end undefined_is_identifier andThen_def)


text \<open>The tokens read when one more token is put after them.\<close>

lemma peek_append_less: "p < length ts \<Longrightarrow> peek (ts @ [x]) p = peek ts p"
  by (simp add: peek_def nth_append)

lemma peek_append_at: "peek (ts @ [x]) (length ts) = Some x"
  by (simp add: peek_def)

lemma peek_append_beyond: "length ts < p \<Longrightarrow> peek (ts @ [x]) p = None"
  by (simp add: peek_def)

lemma operator_token:
  assumes "isOperator x"
  shows "x \<noteq> ''(''" "x \<noteq> '')''" "x \<noteq> '',''" "x \<noteq> ''i''"
    "\<not> isNumberToken (Some x)" "\<not> isIdentToken (Some x)"
proof -
  have t: "\<not> isNumberToken (Some ''**'') \<and> \<not> isIdentToken (Some ''**'') \<and>
           \<not> isNumberToken (Some ''^'') \<and> \<not> isIdentToken (Some ''^'') \<and>
           \<not> isNumberToken (Some ''*'') \<and> \<not> isIdentToken (Some ''*'') \<and>
           \<not> isNumberToken (Some ''/'') \<and> \<not> isIdentToken (Some ''/'') \<and>
           \<not> isNumberToken (Some ''+'') \<and> \<not> isIdentToken (Some ''+'') \<and>
           \<not> isNumberToken (Some ''-'') \<and> \<not> isIdentToken (Some ''-'')"
    by code_simp
  from assms t show "x \<noteq> ''(''" "x \<noteq> '')''" "x \<noteq> '',''" "x \<noteq> ''i''"
    "\<not> isNumberToken (Some x)" "\<not> isIdentToken (Some x)"
    by (auto simp: isOperator_def isPowOp_def isMulOp_def isAddOp_def)
qed


lemma peek_append_other:
  assumes "x \<noteq> c"
  shows "(peek (ts @ [x]) q = Some c) = (peek ts q = Some c)"
proof -
  consider "q < length ts" | "q = length ts" | "length ts < q" by linarith
  then show ?thesis
    using assms by cases (auto simp: peek_append_less peek_append_at peek_append_beyond peek_end)
qed

text \<open>From here on \<open>parse\<close> is unfolded one step at a time.\<close>

declare parse.simps [simp del]

text \<open>
  The run of an entry \<open>r\<close> on the tokens \<open>ts\<close> from \<open>pos\<close>, against its run on \<open>ts\<close> followed
  by an operator \<open>x\<close>. If the first returns before the end of \<open>ts\<close>, so does the second,
  with the same result. If the first returns at the end of \<open>ts\<close>, the second either
  returns the same, or reads \<open>x\<close> and then, past the end, \<^verbatim>\<open>undefined\<close> as the operand. If
  the first has read \<^verbatim>\<open>undefined\<close> past the end of \<open>ts\<close> and \<open>x\<close> is a sign, the second reads
  \<open>x\<close> as a sign there and then \<^verbatim>\<open>undefined\<close>.
\<close>

lemma append_operator:
  assumes op: "isOperator x"
  shows "parse F ts r pos = Some (Inr (node, p)) \<Longrightarrow> pos \<le> length ts \<Longrightarrow>
     (p < length ts \<longrightarrow> parse (Suc (Suc (Suc F))) (ts @ [x]) r pos = Some (Inr (node, p))) \<and>
     (p = length ts \<longrightarrow>
        (if absorbs r (pos = length ts) x
         then (\<exists>node'. parse (Suc (Suc (Suc F))) (ts @ [x]) r pos = Some (Inr (node', Suc (Suc (length ts)))))
         else parse (Suc (Suc (Suc F))) (ts @ [x]) r pos = Some (Inr (node, p)))) \<and>
     (length ts < p \<longrightarrow> isAddOp x \<longrightarrow>
        (\<exists>node'. parse (Suc (Suc (Suc F))) (ts @ [x]) r pos = Some (Inr (node', Suc (Suc (length ts))))))"
proof (induction F arbitrary: r pos node p)
  case 0
  then show ?case by (simp add: parse.simps)
next
  case (Suc F)
  note IH = Suc.IH and res = Suc.prems(1) and start = Suc.prems(2)
  note ops = operator_token [OF op]
  have chain: "(p < length ts \<longrightarrow> parse (Suc (Suc (Suc (Suc F)))) (ts @ [x]) r pos = Some (Inr (node, p))) \<and>
     (p = length ts \<longrightarrow>
        (if absorbs r (pos = length ts) x
         then (\<exists>node'. parse (Suc (Suc (Suc (Suc F)))) (ts @ [x]) r pos = Some (Inr (node', Suc (Suc (length ts)))))
         else parse (Suc (Suc (Suc (Suc F)))) (ts @ [x]) r pos = Some (Inr (node, p)))) \<and>
     (length ts < p \<longrightarrow> isAddOp x \<longrightarrow>
        (\<exists>node'. parse (Suc (Suc (Suc (Suc F)))) (ts @ [x]) r pos = Some (Inr (node', Suc (Suc (length ts))))))"
    if a: "parse F ts r1 q = Some (Inr (n, p1))"
      and b: "parse F ts (lp n) p1 = Some (Inr (node, p))"
      and q: "q \<le> length ts"
      and T: "parse (Suc (Suc (Suc (Suc F)))) (ts @ [x]) r pos =
                andThen (parse (Suc (Suc (Suc F))) (ts @ [x]) r1 q)
                  (\<lambda>(l, k). parse (Suc (Suc (Suc F))) (ts @ [x]) (lp l) k)"
      and lpb: "\<And>l f toks k. length toks \<le> k \<Longrightarrow>
                  \<exists>m. parse (Suc f) toks (lp l) k = Some (Inr (m, k))"
      and lpl: "isLoop (lp n)"
      and abs1: "absorbs r (pos = length ts) x =
                   (absorbs r1 (q = length ts) x \<or> absorbs (lp n) True x)"
      and abs2: "absorbs (lp n) False x = absorbs r (pos = length ts) x"
    for r1 q n p1 lp
  proof -
    from parse_advances [OF b] lpl have adv: "p1 \<le> p" by simp
    have T': "parse (Suc (Suc (Suc (Suc F)))) (ts @ [x]) r pos = parse (Suc (Suc (Suc F))) (ts @ [x]) (lp l) k"
      if "parse (Suc (Suc (Suc F))) (ts @ [x]) r1 q = Some (Inr (l, k))" for l k
      unfolding T that by (simp add: andThen_def)
    have after: "\<exists>m. parse (Suc (Suc (Suc F))) (ts @ [x]) (lp l) (Suc (Suc (length ts))) =
                     Some (Inr (m, Suc (Suc (length ts))))" for l
      by (rule lpb) simp
    consider (lt) "p1 < length ts" | (eq) "p1 = length ts" | (gt) "length ts < p1"
      by linarith
    then show ?thesis
    proof cases
      case lt
      from IH [OF a q] lt
      have a': "parse (Suc (Suc (Suc F))) (ts @ [x]) r1 q = Some (Inr (n, p1))" by simp
      from IH [OF b] lt abs2 show ?thesis unfolding T' [OF a'] by simp
    next
      case eq
      from b obtain f where F: "F = Suc f" by (cases F) (simp_all add: parse.simps)
      from lpb [of ts p1 f n] b eq have p: "p = length ts" unfolding F by auto
      show ?thesis
      proof (cases "absorbs r1 (q = length ts) x")
        case True
        with IH [OF a q] eq obtain n' where
          a': "parse (Suc (Suc (Suc F))) (ts @ [x]) r1 q = Some (Inr (n', Suc (Suc (length ts))))"
          by auto
        from True abs1 after [of n'] show ?thesis unfolding T' [OF a'] p by simp
      next
        case False
        with IH [OF a q] eq
        have a': "parse (Suc (Suc (Suc F))) (ts @ [x]) r1 q = Some (Inr (n, p1))" by simp
        from IH [OF b] eq False abs1 show ?thesis unfolding T' [OF a'] p by simp
      qed
    next
      case gt
      with adv have p: "length ts < p" by simp
      show ?thesis
      proof (cases "isAddOp x")
        case True
        with IH [OF a q] gt obtain n' where
          a': "parse (Suc (Suc (Suc F))) (ts @ [x]) r1 q = Some (Inr (n', Suc (Suc (length ts))))"
          by auto
        from p after [of n'] show ?thesis unfolding T' [OF a'] by simp
      next
        case False
        with p show ?thesis by simp
      qed
    qed
  qed
  show ?case
  proof (cases r)
    case Power
    from res Power obtain n p1 where
      a: "parse F ts Primary pos = Some (Inr (n, p1))" and
      b: "parse F ts (PowerLoop n) p1 = Some (Inr (node, p))"
      by (auto simp: parse.simps(4) andThen_def split: option.splits sum.splits)
    have T: "parse (Suc (Suc (Suc (Suc F)))) (ts @ [x]) r pos =
               andThen (parse (Suc (Suc (Suc F))) (ts @ [x]) Primary pos)
                 (\<lambda>(l, k). parse (Suc (Suc (Suc F))) (ts @ [x]) (PowerLoop l) k)"
      unfolding Power by (subst parse.simps(4)) simp
    show ?thesis
      by (rule chain [OF a b start T]) (simp_all add: Power loop_beyond isOperator_def)
  next
    case MulDiv
    from res MulDiv obtain n p1 where
      a: "parse F ts Power pos = Some (Inr (n, p1))" and
      b: "parse F ts (MulDivLoop n) p1 = Some (Inr (node, p))"
      by (auto simp: parse.simps(6) andThen_def split: option.splits sum.splits)
    have T: "parse (Suc (Suc (Suc (Suc F)))) (ts @ [x]) r pos =
               andThen (parse (Suc (Suc (Suc F))) (ts @ [x]) Power pos)
                 (\<lambda>(l, k). parse (Suc (Suc (Suc F))) (ts @ [x]) (MulDivLoop l) k)"
      unfolding MulDiv by (subst parse.simps(6)) simp
    show ?thesis
      by (rule chain [OF a b start T]) (simp_all add: MulDiv loop_beyond isOperator_def)
  next
    case AddSub
    from res AddSub obtain n p1 where
      a: "parse F ts MulDiv pos = Some (Inr (n, p1))" and
      b: "parse F ts (AddSubLoop n) p1 = Some (Inr (node, p))"
      by (auto simp: parse.simps(8) andThen_def split: option.splits sum.splits)
    have T: "parse (Suc (Suc (Suc (Suc F)))) (ts @ [x]) r pos =
               andThen (parse (Suc (Suc (Suc F))) (ts @ [x]) MulDiv pos)
                 (\<lambda>(l, k). parse (Suc (Suc (Suc F))) (ts @ [x]) (AddSubLoop l) k)"
      unfolding AddSub by (subst parse.simps(8)) simp
    show ?thesis
      by (rule chain [OF a b start T]) (simp_all add: AddSub loop_beyond isOperator_def)
  next
    case (PowerLoop m)
    show ?thesis
    proof (cases "pos = length ts")
      case True
      from res have np: "node = m" "p = length ts"
        unfolding PowerLoop True by (simp_all add: parse.simps(5) peek_end)
      have e: "parse (Suc (Suc (Suc F))) (ts @ [x]) Power (Suc (length ts)) =
                 Some (Inr (VarNode None, Suc (Suc (length ts))))"
        by (rule entry_exhausted) simp
      have l: "parse (Suc (Suc (Suc F))) (ts @ [x]) (PowerLoop k) (Suc (Suc (length ts))) =
                 Some (Inr (k, Suc (Suc (length ts))))" for k
        by (rule loop_beyond) simp
      show ?thesis
        unfolding PowerLoop True np
        by (subst (1 2 3 4) parse.simps(5))
           (simp add: peek_append_at isPowOp_def e l andThen_def)
    next
      case False
      with start have less: "pos < length ts" by simp
      show ?thesis
      proof (cases "peek ts pos = Some ''**'' \<or> peek ts pos = Some ''^''")
        case stop: False
        with res have np: "node = m" "p = pos"
          unfolding PowerLoop by (simp_all add: parse.simps(5))
        from stop less show ?thesis
          unfolding PowerLoop np
          by (subst (1 2 3 4) parse.simps(5)) (simp add: peek_append_less)
      next
        case go: True
        with res PowerLoop obtain n p1 where
          a: "parse F ts Power (Suc pos) = Some (Inr (n, p1))" and
          b: "parse F ts (PowerLoop (OpNode ''**'' [m, n])) p1 = Some (Inr (node, p))"
          by (auto simp: parse.simps(5) andThen_def split: option.splits sum.splits)
        from less have next_pos: "Suc pos \<le> length ts" by simp
        have T: "parse (Suc (Suc (Suc (Suc F)))) (ts @ [x]) r pos =
                   andThen (parse (Suc (Suc (Suc F))) (ts @ [x]) Power (Suc pos))
                     (\<lambda>(l, k). parse (Suc (Suc (Suc F))) (ts @ [x]) (PowerLoop (OpNode ''**'' [m, l])) k)"
          unfolding PowerLoop using go less
          by (subst parse.simps(5)) (simp add: peek_append_less)
        show ?thesis
          by (rule chain [OF a b next_pos T])
             (use False in \<open>simp_all add: PowerLoop loop_beyond isOperator_def\<close>)
      qed
    qed
  next
    case (MulDivLoop m)
    show ?thesis
    proof (cases "pos = length ts")
      case True
      from res have np: "node = m" "p = length ts"
        unfolding MulDivLoop True by (simp_all add: parse.simps(7) peek_end)
      have e: "parse (Suc (Suc (Suc F))) (ts @ [x]) Power (Suc (length ts)) =
                 Some (Inr (VarNode None, Suc (Suc (length ts))))"
        by (rule entry_exhausted) simp
      have l: "parse (Suc (Suc (Suc F))) (ts @ [x]) (MulDivLoop k) (Suc (Suc (length ts))) =
                 Some (Inr (k, Suc (Suc (length ts))))" for k
        by (rule loop_beyond) simp
      show ?thesis
        unfolding MulDivLoop True np
        by (subst (1 2 3 4) parse.simps(7))
           (simp add: peek_append_at isMulOp_def e l andThen_def)
    next
      case False
      with start have less: "pos < length ts" by simp
      show ?thesis
      proof (cases "peek ts pos = Some ''*'' \<or> peek ts pos = Some ''/''")
        case stop: False
        with res have np: "node = m" "p = pos"
          unfolding MulDivLoop by (simp_all add: parse.simps(7))
        from stop less show ?thesis
          unfolding MulDivLoop np
          by (subst (1 2 3 4) parse.simps(7)) (simp add: peek_append_less)
      next
        case go: True
        with res MulDivLoop obtain n p1 where
          a: "parse F ts Power (Suc pos) = Some (Inr (n, p1))" and
          b: "parse F ts (MulDivLoop (OpNode (tokText (peek ts pos)) [m, n])) p1 = Some (Inr (node, p))"
          by (auto simp: parse.simps(7) andThen_def split: option.splits sum.splits)
        from less have next_pos: "Suc pos \<le> length ts" by simp
        have T: "parse (Suc (Suc (Suc (Suc F)))) (ts @ [x]) r pos =
                   andThen (parse (Suc (Suc (Suc F))) (ts @ [x]) Power (Suc pos))
                     (\<lambda>(l, k). parse (Suc (Suc (Suc F))) (ts @ [x]) (MulDivLoop (OpNode (tokText (peek ts pos)) [m, l])) k)"
          unfolding MulDivLoop using go less
          by (subst parse.simps(7)) (simp add: peek_append_less)
        show ?thesis
          by (rule chain [OF a b next_pos T])
             (use False in \<open>simp_all add: MulDivLoop loop_beyond isOperator_def\<close>)
      qed
    qed
  next
    case (AddSubLoop m)
    show ?thesis
    proof (cases "pos = length ts")
      case True
      from res have np: "node = m" "p = length ts"
        unfolding AddSubLoop True by (simp_all add: parse.simps(9) peek_end)
      have e: "parse (Suc (Suc (Suc F))) (ts @ [x]) MulDiv (Suc (length ts)) =
                 Some (Inr (VarNode None, Suc (Suc (length ts))))"
        by (rule entry_exhausted) simp
      have l: "parse (Suc (Suc (Suc F))) (ts @ [x]) (AddSubLoop k) (Suc (Suc (length ts))) =
                 Some (Inr (k, Suc (Suc (length ts))))" for k
        by (rule loop_beyond) simp
      show ?thesis
        unfolding AddSubLoop True np
        by (subst (1 2 3 4) parse.simps(9))
           (simp add: peek_append_at isAddOp_def e l andThen_def)
    next
      case False
      with start have less: "pos < length ts" by simp
      show ?thesis
      proof (cases "peek ts pos = Some ''+'' \<or> peek ts pos = Some ''-''")
        case stop: False
        with res have np: "node = m" "p = pos"
          unfolding AddSubLoop by (simp_all add: parse.simps(9))
        from stop less show ?thesis
          unfolding AddSubLoop np
          by (subst (1 2 3 4) parse.simps(9)) (simp add: peek_append_less)
      next
        case go: True
        with res AddSubLoop obtain n p1 where
          a: "parse F ts MulDiv (Suc pos) = Some (Inr (n, p1))" and
          b: "parse F ts (AddSubLoop (OpNode (tokText (peek ts pos)) [m, n])) p1 = Some (Inr (node, p))"
          by (auto simp: parse.simps(9) andThen_def split: option.splits sum.splits)
        from less have next_pos: "Suc pos \<le> length ts" by simp
        have T: "parse (Suc (Suc (Suc (Suc F)))) (ts @ [x]) r pos =
                   andThen (parse (Suc (Suc (Suc F))) (ts @ [x]) MulDiv (Suc pos))
                     (\<lambda>(l, k). parse (Suc (Suc (Suc F))) (ts @ [x]) (AddSubLoop (OpNode (tokText (peek ts pos)) [m, l])) k)"
          unfolding AddSubLoop using go less
          by (subst parse.simps(9)) (simp add: peek_append_less)
        show ?thesis
          by (rule chain [OF a b next_pos T])
             (use False in \<open>simp_all add: AddSubLoop loop_beyond isOperator_def\<close>)
      qed
    qed
  next
    case Primary
    show ?thesis
    proof (cases "pos = length ts")
      case True
      from res have np: "node = VarNode None" "p = Suc (length ts)"
        unfolding Primary True
        by (simp_all add: parse.simps(2) peek_end undefined_is_identifier)
      have e: "parse (Suc (Suc (Suc F))) (ts @ [x]) Primary (Suc (length ts)) =
                 Some (Inr (VarNode None, Suc (Suc (length ts))))"
        by (rule entry_exhausted) simp
      show ?thesis
        unfolding Primary True np using ops
        by (subst parse.simps(2)) (auto simp: peek_append_at isAddOp_def e andThen_def)
    next
      case False
      with start have less: "pos < length ts" by simp
      then have here: "peek (ts @ [x]) pos = peek ts pos" by (rule peek_append_less)
      note other = peek_append_other [of x _ ts]
      note there = other [OF ops(1)] other [OF ops(2)] other [OF ops(3)] other [OF ops(4)]
      let ?t = "peek ts pos"
      consider (paren) "?t = Some ''(''"
        | (number) "?t \<noteq> Some ''(''" "isNumberToken ?t"
        | (unit) "?t \<noteq> Some ''(''" "\<not> isNumberToken ?t" "?t = Some ''i''"
        | (ident) "?t \<noteq> Some ''(''" "\<not> isNumberToken ?t" "?t \<noteq> Some ''i''" "isIdentToken ?t"
        | (sign) "?t \<noteq> Some ''(''" "\<not> isNumberToken ?t" "?t \<noteq> Some ''i''" "\<not> isIdentToken ?t"
        by blast
      then show ?thesis
      proof cases
        case paren
        with res Primary obtain p1 where
          a: "parse F ts AddSub (Suc pos) = Some (Inr (node, p1))" and
          close: "peek ts p1 = Some '')''" and p: "p = Suc p1"
          by (auto simp: parse.simps(2) andThen_def split: option.splits sum.splits if_splits)
        from close have p1: "p1 < length ts" by (simp add: peek_def split: if_splits)
        from less have "Suc pos \<le> length ts" by simp
        from IH [OF a this] p1
        have a': "parse (Suc (Suc (Suc F))) (ts @ [x]) AddSub (Suc pos) = Some (Inr (node, p1))" by simp
        have "parse (Suc (Suc (Suc (Suc F)))) (ts @ [x]) Primary pos = Some (Inr (node, p))"
          using paren close p
          by (subst parse.simps(2)) (simp add: here there a' andThen_def)
        with p p1 show ?thesis unfolding Primary by simp
      next
        case number
        from res number less have p: "p \<le> length ts"
          unfolding Primary
          by (auto simp: parse.simps(2) peek_def Let_def split: sum.splits if_splits)
        have "parse (Suc (Suc (Suc (Suc F)))) (ts @ [x]) Primary pos = parse (Suc F) ts Primary pos"
          using number by (subst (1 2) parse.simps(2)) (simp add: here there)
        with res p show ?thesis unfolding Primary by simp
      next
        case unit
        from res unit less have p: "p \<le> length ts"
          unfolding Primary by (simp add: parse.simps(2))
        have "parse (Suc (Suc (Suc (Suc F)))) (ts @ [x]) Primary pos = parse (Suc F) ts Primary pos"
          using unit by (subst (1 2) parse.simps(2)) (simp add: here there)
        with res p show ?thesis unfolding Primary by simp
      next
        case ident
        show ?thesis
        proof (cases "peek ts (Suc pos) = Some ''('' \<and> peek ts (Suc (Suc pos)) \<noteq> Some '')''")
          case True
          with res ident have
            b: "parse F ts (CallArgs (tokText ?t) []) (Suc (Suc pos)) = Some (Inr (node, p))"
            unfolding Primary by (simp add: parse.simps(2))
          from True have "Suc (Suc pos) \<le> length ts" by (simp add: peek_def split: if_splits)
          note sub = IH [OF b this]
          have "parse (Suc (Suc (Suc (Suc F)))) (ts @ [x]) Primary pos =
                  parse (Suc (Suc (Suc F))) (ts @ [x]) (CallArgs (tokText ?t) []) (Suc (Suc pos))"
            using ident True by (subst parse.simps(2)) (simp add: here there)
          with sub less show ?thesis unfolding Primary by simp
        next
          case False
          with res ident less have p: "p \<le> length ts"
            unfolding Primary
            by (auto simp: parse.simps(2) peek_def Let_def split: if_splits)
          have "parse (Suc (Suc (Suc (Suc F)))) (ts @ [x]) Primary pos = parse (Suc F) ts Primary pos"
            using ident False
            by (subst (1 2) parse.simps(2)) (auto simp: here there Let_def)
          with res p show ?thesis unfolding Primary by simp
        qed
      next
        case sign
        with res Primary obtain prim where
          s: "?t = Some ''+'' \<or> ?t = Some ''-''" and
          a: "parse F ts Primary (Suc pos) = Some (Inr (prim, p))" and
          node: "node = (if ?t = Some ''-'' then OpNode ''neg'' [prim] else prim)"
          by (auto simp: parse.simps(2) andThen_def Let_def
                   split: option.splits sum.splits if_splits)
        from less have "Suc pos \<le> length ts" by simp
        note sub = IH [OF a this]
        have T: "parse (Suc (Suc (Suc (Suc F)))) (ts @ [x]) Primary pos =
                   andThen (parse (Suc (Suc (Suc F))) (ts @ [x]) Primary (Suc pos)) (\<lambda>(prim, p).
                     if ?t = Some ''-'' then Some (Inr (OpNode ''neg'' [prim], p))
                     else Some (Inr (prim, p)))"
          using sign s by (subst parse.simps(2)) (simp add: here there)
        from sub node show ?thesis unfolding Primary T by (auto simp: andThen_def)
      qed
    qed
  next
    case (CallArgs name args)
    from res CallArgs obtain a p1 where
      a: "parse F ts AddSub pos = Some (Inr (a, p1))" and
      b: "if peek ts p1 = Some '','' then parse F ts (CallArgs name (args @ [a])) (Suc p1) = Some (Inr (node, p))
          else peek ts p1 = Some '')'' \<and> node = CallNode name (args @ [a]) \<and> p = Suc p1"
      by (auto simp: parse.simps(3) andThen_def split: option.splits sum.splits if_splits)
    from b have p1: "p1 < length ts" by (auto simp: peek_def split: if_splits)
    from IH [OF a start] p1
    have a': "parse (Suc (Suc (Suc F))) (ts @ [x]) AddSub pos = Some (Inr (a, p1))" by simp
    have T: "parse (Suc (Suc (Suc (Suc F)))) (ts @ [x]) r pos =
               (if peek ts p1 = Some '','' then parse (Suc (Suc (Suc F))) (ts @ [x]) (CallArgs name (args @ [a])) (Suc p1)
                else if peek ts p1 \<noteq> Some '')'' then Some (Inl UnclosedCallParenthesis)
                else Some (Inr (CallNode name (args @ [a]), Suc p1)))"
      unfolding CallArgs using p1
      by (subst parse.simps(3)) (simp add: a' andThen_def peek_append_less)
    show ?thesis
    proof (cases "peek ts p1 = Some '',''")
      case True
      with b have b': "parse F ts (CallArgs name (args @ [a])) (Suc p1) = Some (Inr (node, p))"
        by simp
      from p1 have "Suc p1 \<le> length ts" by simp
      from IH [OF b' this] True show ?thesis unfolding T by (simp add: CallArgs)
    next
      case False
      with b p1 show ?thesis unfolding T by (simp add: CallArgs)
    qed
  qed
qed


text \<open>Two runs that return, whatever their fuel, return the same.\<close>

lemma parse_any_fuel:
  assumes a: "parse F tokens r pos = Some res" and b: "parse F' tokens r pos = Some res'"
  shows "res' = res"
proof (cases "F \<le> F'")
  case True
  then obtain n where "F' = F + n" by (auto simp: le_iff_add)
  with parse_fuel_add [of F tokens r pos n] a b show ?thesis by (simp add: extends_def)
next
  case False
  then have "F' \<le> F" by simp
  then obtain n where "F = F' + n" by (auto simp: le_iff_add)
  with parse_fuel_add [of F' tokens r pos n] a b show ?thesis by (simp add: extends_def)
qed

text \<open>
  \<^verbatim>\<open>parseExpression\<close> on tokens followed by an operator, when the additive tier run on the
  tokens alone returns at their end, or past it and the operator is a sign.
\<close>

lemma operator_after:
  assumes a: "parse F ts AddSub 0 = Some (Inr (node, p))"
    and x: "p = length ts \<and> isOperator x \<or> length ts < p \<and> isAddOp x"
  shows "\<exists>node'. parseAddSub (4 * length (ts @ [x]) + 4) (ts @ [x]) 0 =
                     Some (Inr (node', Suc (length (ts @ [x])))) \<and>
                  parseExpression (ts @ [x]) = Some (Inr node')"
proof -
  let ?F = "4 * length ts + 4"
  have fuel: "4 * length (ts @ [x]) + 4 = Suc (Suc (Suc (Suc ?F)))" by simp
  have "returns AddSub 0 (parse ?F ts AddSub 0)" by (rule parse_returns) simp
  then obtain res where "parse ?F ts AddSub 0 = Some res"
    by (auto simp: returns_def split: option.splits)
  with a parse_any_fuel [OF a] have b: "parse ?F ts AddSub 0 = Some (Inr (node, p))" by simp
  from x have op: "isOperator x" by (auto simp: isOperator_def)
  from append_operator [OF op b] x obtain node' where
    c: "parse (Suc (Suc (Suc ?F))) (ts @ [x]) AddSub 0 = Some (Inr (node', Suc (Suc (length ts))))"
    by auto
  with parse_more_fuel [of "Suc (Suc (Suc ?F))" "ts @ [x]" AddSub 0]
  have d: "parse (Suc (Suc (Suc (Suc ?F)))) (ts @ [x]) AddSub 0 =
             Some (Inr (node', Suc (Suc (length ts))))"
    by (simp add: extends_def)
  show ?thesis
    unfolding parseExpression_def parseWith_def parseAddSub_def fuel
    using d by (simp add: andThen_def)
qed

subsection \<open>The sequences that end in an operator and are rejected\<close>

text \<open>
  A run on \<open>ts\<close> that has read \<^verbatim>\<open>undefined\<close> past the end: on \<open>ts\<close> followed by an operator that
  is no sign, \<^verbatim>\<open>parsePrimary\<close> reads the operator there and fails.
\<close>

lemma overrun_needs_sign:
  assumes op: "isOperator x" and ns: "\<not> isAddOp x"
  shows "parse F ts r pos = Some (Inr (node, p)) \<Longrightarrow> pos \<le> length ts \<Longrightarrow> length ts < p \<Longrightarrow>
         \<exists>e. parse (Suc (Suc (Suc F))) (ts @ [x]) r pos = Some (Inl e)"
proof (induction F arbitrary: r pos node p)
  case 0
  then show ?case by (simp add: parse.simps)
next
  case (Suc F)
  note IH = Suc.IH and res = Suc.prems(1) and start = Suc.prems(2) and over = Suc.prems(3)
  note ops = operator_token [OF op]
  note same = append_operator [OF op]
  have chain: "\<exists>e. parse (Suc (Suc (Suc (Suc F)))) (ts @ [x]) r pos = Some (Inl e)"
    if a: "parse F ts r1 q = Some (Inr (n, p1))"
      and b: "parse F ts (lp n) p1 = Some (Inr (node, p))"
      and q: "q \<le> length ts"
      and T: "parse (Suc (Suc (Suc (Suc F)))) (ts @ [x]) r pos =
                andThen (parse (Suc (Suc (Suc F))) (ts @ [x]) r1 q)
                  (\<lambda>(l, k). parse (Suc (Suc (Suc F))) (ts @ [x]) (lp l) k)"
      and lpb: "\<And>l f k. length ts \<le> k \<Longrightarrow>
                  \<exists>m. parse (Suc f) ts (lp l) k = Some (Inr (m, k))"
    for r1 q n p1 lp
  proof -
    consider (lt) "p1 < length ts" | (eq) "p1 = length ts" | (gt) "length ts < p1"
      by linarith
    then show ?thesis
    proof cases
      case lt
      from same [OF a q] lt
      have a': "parse (Suc (Suc (Suc F))) (ts @ [x]) r1 q = Some (Inr (n, p1))" by simp
      from lt have "p1 \<le> length ts" by simp
      from IH [OF b this over] show ?thesis unfolding T a' by (simp add: andThen_def)
    next
      case eq
      from b obtain f where F: "F = Suc f" by (cases F) (simp_all add: parse.simps)
      from lpb [of p1 f n] b eq have "p = length ts" unfolding F by auto
      with over show ?thesis by simp
    next
      case gt
      from IH [OF a q gt] show ?thesis unfolding T by (auto simp: andThen_def)
    qed
  qed
  show ?case
  proof (cases r)
    case Power
    from res Power obtain n p1 where
      a: "parse F ts Primary pos = Some (Inr (n, p1))" and
      b: "parse F ts (PowerLoop n) p1 = Some (Inr (node, p))"
      by (auto simp: parse.simps(4) andThen_def split: option.splits sum.splits)
    have T: "parse (Suc (Suc (Suc (Suc F)))) (ts @ [x]) r pos =
               andThen (parse (Suc (Suc (Suc F))) (ts @ [x]) Primary pos)
                 (\<lambda>(l, k). parse (Suc (Suc (Suc F))) (ts @ [x]) (PowerLoop l) k)"
      unfolding Power by (subst parse.simps(4)) simp
    show ?thesis
      by (rule chain [OF a b start T]) (simp_all add: loop_beyond)
  next
    case MulDiv
    from res MulDiv obtain n p1 where
      a: "parse F ts Power pos = Some (Inr (n, p1))" and
      b: "parse F ts (MulDivLoop n) p1 = Some (Inr (node, p))"
      by (auto simp: parse.simps(6) andThen_def split: option.splits sum.splits)
    have T: "parse (Suc (Suc (Suc (Suc F)))) (ts @ [x]) r pos =
               andThen (parse (Suc (Suc (Suc F))) (ts @ [x]) Power pos)
                 (\<lambda>(l, k). parse (Suc (Suc (Suc F))) (ts @ [x]) (MulDivLoop l) k)"
      unfolding MulDiv by (subst parse.simps(6)) simp
    show ?thesis
      by (rule chain [OF a b start T]) (simp_all add: loop_beyond)
  next
    case AddSub
    from res AddSub obtain n p1 where
      a: "parse F ts MulDiv pos = Some (Inr (n, p1))" and
      b: "parse F ts (AddSubLoop n) p1 = Some (Inr (node, p))"
      by (auto simp: parse.simps(8) andThen_def split: option.splits sum.splits)
    have T: "parse (Suc (Suc (Suc (Suc F)))) (ts @ [x]) r pos =
               andThen (parse (Suc (Suc (Suc F))) (ts @ [x]) MulDiv pos)
                 (\<lambda>(l, k). parse (Suc (Suc (Suc F))) (ts @ [x]) (AddSubLoop l) k)"
      unfolding AddSub by (subst parse.simps(8)) simp
    show ?thesis
      by (rule chain [OF a b start T]) (simp_all add: loop_beyond)
  next
    case (PowerLoop m)
    show ?thesis
    proof (cases "pos = length ts")
      case True
      from res have "p = length ts"
        unfolding PowerLoop True by (simp add: parse.simps(5) peek_end)
      with over show ?thesis by simp
    next
      case False
      with start have less: "pos < length ts" by simp
      show ?thesis
      proof (cases "peek ts pos = Some ''**'' \<or> peek ts pos = Some ''^''")
        case stop: False
        with res have "p = pos"
          unfolding PowerLoop by (simp add: parse.simps(5))
        with over less show ?thesis by simp
      next
        case go: True
        with res PowerLoop obtain n p1 where
          a: "parse F ts Power (Suc pos) = Some (Inr (n, p1))" and
          b: "parse F ts (PowerLoop (OpNode ''**'' [m, n])) p1 = Some (Inr (node, p))"
          by (auto simp: parse.simps(5) andThen_def split: option.splits sum.splits)
        from less have next_pos: "Suc pos \<le> length ts" by simp
        have T: "parse (Suc (Suc (Suc (Suc F)))) (ts @ [x]) r pos =
                   andThen (parse (Suc (Suc (Suc F))) (ts @ [x]) Power (Suc pos))
                     (\<lambda>(l, k). parse (Suc (Suc (Suc F))) (ts @ [x]) (PowerLoop (OpNode ''**'' [m, l])) k)"
          unfolding PowerLoop using go less
          by (subst parse.simps(5)) (simp add: peek_append_less)
        show ?thesis
          by (rule chain [OF a b next_pos T]) (simp_all add: loop_beyond)
      qed
    qed
  next
    case (MulDivLoop m)
    show ?thesis
    proof (cases "pos = length ts")
      case True
      from res have "p = length ts"
        unfolding MulDivLoop True by (simp add: parse.simps(7) peek_end)
      with over show ?thesis by simp
    next
      case False
      with start have less: "pos < length ts" by simp
      show ?thesis
      proof (cases "peek ts pos = Some ''*'' \<or> peek ts pos = Some ''/''")
        case stop: False
        with res have "p = pos"
          unfolding MulDivLoop by (simp add: parse.simps(7))
        with over less show ?thesis by simp
      next
        case go: True
        with res MulDivLoop obtain n p1 where
          a: "parse F ts Power (Suc pos) = Some (Inr (n, p1))" and
          b: "parse F ts (MulDivLoop (OpNode (tokText (peek ts pos)) [m, n])) p1 = Some (Inr (node, p))"
          by (auto simp: parse.simps(7) andThen_def split: option.splits sum.splits)
        from less have next_pos: "Suc pos \<le> length ts" by simp
        have T: "parse (Suc (Suc (Suc (Suc F)))) (ts @ [x]) r pos =
                   andThen (parse (Suc (Suc (Suc F))) (ts @ [x]) Power (Suc pos))
                     (\<lambda>(l, k). parse (Suc (Suc (Suc F))) (ts @ [x]) (MulDivLoop (OpNode (tokText (peek ts pos)) [m, l])) k)"
          unfolding MulDivLoop using go less
          by (subst parse.simps(7)) (simp add: peek_append_less)
        show ?thesis
          by (rule chain [OF a b next_pos T]) (simp_all add: loop_beyond)
      qed
    qed
  next
    case (AddSubLoop m)
    show ?thesis
    proof (cases "pos = length ts")
      case True
      from res have "p = length ts"
        unfolding AddSubLoop True by (simp add: parse.simps(9) peek_end)
      with over show ?thesis by simp
    next
      case False
      with start have less: "pos < length ts" by simp
      show ?thesis
      proof (cases "peek ts pos = Some ''+'' \<or> peek ts pos = Some ''-''")
        case stop: False
        with res have "p = pos"
          unfolding AddSubLoop by (simp add: parse.simps(9))
        with over less show ?thesis by simp
      next
        case go: True
        with res AddSubLoop obtain n p1 where
          a: "parse F ts MulDiv (Suc pos) = Some (Inr (n, p1))" and
          b: "parse F ts (AddSubLoop (OpNode (tokText (peek ts pos)) [m, n])) p1 = Some (Inr (node, p))"
          by (auto simp: parse.simps(9) andThen_def split: option.splits sum.splits)
        from less have next_pos: "Suc pos \<le> length ts" by simp
        have T: "parse (Suc (Suc (Suc (Suc F)))) (ts @ [x]) r pos =
                   andThen (parse (Suc (Suc (Suc F))) (ts @ [x]) MulDiv (Suc pos))
                     (\<lambda>(l, k). parse (Suc (Suc (Suc F))) (ts @ [x]) (AddSubLoop (OpNode (tokText (peek ts pos)) [m, l])) k)"
          unfolding AddSubLoop using go less
          by (subst parse.simps(9)) (simp add: peek_append_less)
        show ?thesis
          by (rule chain [OF a b next_pos T]) (simp_all add: loop_beyond)
      qed
    qed
  next
    case Primary
    show ?thesis
    proof (cases "pos = length ts")
      case True
      show ?thesis
        unfolding Primary True using ops ns
        by (subst parse.simps(2)) (simp add: peek_append_at isAddOp_def)
    next
      case False
      with start have less: "pos < length ts" by simp
      then have here: "peek (ts @ [x]) pos = peek ts pos" by (rule peek_append_less)
      note other = peek_append_other [of x _ ts]
      note there = other [OF ops(1)] other [OF ops(2)] other [OF ops(3)] other [OF ops(4)]
      let ?t = "peek ts pos"
      consider (paren) "?t = Some ''(''"
        | (call) "?t \<noteq> Some ''(''" "\<not> isNumberToken ?t" "?t \<noteq> Some ''i''" "isIdentToken ?t"
            "peek ts (Suc pos) = Some ''(''" "peek ts (Suc (Suc pos)) \<noteq> Some '')''"
        | (sign) "?t \<noteq> Some ''(''" "\<not> isNumberToken ?t" "?t \<noteq> Some ''i''" "\<not> isIdentToken ?t"
        | (token) "?t \<noteq> Some ''(''" "isNumberToken ?t \<or> ?t = Some ''i'' \<or> isIdentToken ?t"
            "\<not> isNumberToken ?t \<and> ?t \<noteq> Some ''i'' \<longrightarrow>
               \<not> (peek ts (Suc pos) = Some ''('' \<and> peek ts (Suc (Suc pos)) \<noteq> Some '')'')"
        by blast
      then show ?thesis
      proof cases
        case paren
        with res Primary obtain p1 where
          close: "peek ts p1 = Some '')''" and p: "p = Suc p1"
          by (auto simp: parse.simps(2) andThen_def split: option.splits sum.splits if_splits)
        from close have "p1 < length ts" by (simp add: peek_def split: if_splits)
        with p over show ?thesis by simp
      next
        case call
        with res have
          b: "parse F ts (CallArgs (tokText ?t) []) (Suc (Suc pos)) = Some (Inr (node, p))"
          unfolding Primary by (simp add: parse.simps(2))
        from call have "Suc (Suc pos) \<le> length ts" by (simp add: peek_def split: if_splits)
        note sub = IH [OF b this over]
        have "parse (Suc (Suc (Suc (Suc F)))) (ts @ [x]) Primary pos =
                parse (Suc (Suc (Suc F))) (ts @ [x]) (CallArgs (tokText ?t) []) (Suc (Suc pos))"
          using call by (subst parse.simps(2)) (simp add: here there)
        with sub show ?thesis unfolding Primary by simp
      next
        case sign
        with res Primary obtain prim where
          s: "?t = Some ''+'' \<or> ?t = Some ''-''" and
          a: "parse F ts Primary (Suc pos) = Some (Inr (prim, p))"
          by (auto simp: parse.simps(2) andThen_def Let_def
                   split: option.splits sum.splits if_splits)
        from less have "Suc pos \<le> length ts" by simp
        note sub = IH [OF a this over]
        have T: "parse (Suc (Suc (Suc (Suc F)))) (ts @ [x]) Primary pos =
                   andThen (parse (Suc (Suc (Suc F))) (ts @ [x]) Primary (Suc pos)) (\<lambda>(prim, p).
                     if ?t = Some ''-'' then Some (Inr (OpNode ''neg'' [prim], p))
                     else Some (Inr (prim, p)))"
          using sign s by (subst parse.simps(2)) (simp add: here there)
        from sub show ?thesis unfolding Primary T by (auto simp: andThen_def)
      next
        case token
        with res less have "p \<le> length ts"
          unfolding Primary
          by (auto simp: parse.simps(2) peek_def Let_def split: sum.splits if_splits)
        with over show ?thesis by simp
      qed
    qed
  next
    case (CallArgs name args)
    from res CallArgs obtain a p1 where
      a: "parse F ts AddSub pos = Some (Inr (a, p1))" and
      b: "if peek ts p1 = Some '','' then parse F ts (CallArgs name (args @ [a])) (Suc p1) = Some (Inr (node, p))
          else peek ts p1 = Some '')'' \<and> node = CallNode name (args @ [a]) \<and> p = Suc p1"
      by (auto simp: parse.simps(3) andThen_def split: option.splits sum.splits if_splits)
    from b have p1: "p1 < length ts" by (auto simp: peek_def split: if_splits)
    from same [OF a start] p1
    have a': "parse (Suc (Suc (Suc F))) (ts @ [x]) AddSub pos = Some (Inr (a, p1))" by simp
    have T: "parse (Suc (Suc (Suc (Suc F)))) (ts @ [x]) r pos =
               (if peek ts p1 = Some '','' then parse (Suc (Suc (Suc F))) (ts @ [x]) (CallArgs name (args @ [a])) (Suc p1)
                else if peek ts p1 \<noteq> Some '')'' then Some (Inl UnclosedCallParenthesis)
                else Some (Inr (CallNode name (args @ [a]), Suc p1)))"
      unfolding CallArgs using p1
      by (subst parse.simps(3)) (simp add: a' andThen_def peek_append_less)
    show ?thesis
    proof (cases "peek ts p1 = Some '',''")
      case True
      with b have b': "parse F ts (CallArgs name (args @ [a])) (Suc p1) = Some (Inr (node, p))"
        by simp
      from p1 have "Suc p1 \<le> length ts" by simp
      from IH [OF b' this over] True show ?thesis unfolding T by simp
    next
      case False
      with b p1 over show ?thesis by simp
    qed
  qed
qed


text \<open>
  What a run that returns a node on \<open>ts\<close> does on \<open>ts\<close> followed by an operator: it fails, or
  returns the same at or before the end of \<open>ts\<close>, or returns two positions after it.
\<close>

lemma after_operator:
  assumes op: "isOperator x"
    and a: "parse F ts r pos = Some (Inr (node, p))"
    and start: "pos \<le> length ts"
  shows "(\<exists>e. parse (Suc (Suc (Suc F))) (ts @ [x]) r pos = Some (Inl e)) \<or>
         parse (Suc (Suc (Suc F))) (ts @ [x]) r pos = Some (Inr (node, p)) \<and> p \<le> length ts \<or>
         (\<exists>node'. parse (Suc (Suc (Suc F))) (ts @ [x]) r pos =
                     Some (Inr (node', Suc (Suc (length ts)))))"
proof -
  note same = append_operator [OF op a start]
  consider (lt) "p < length ts" | (eq) "p = length ts" | (sign) "length ts < p" "isAddOp x"
    | (other) "length ts < p" "\<not> isAddOp x"
    by linarith
  then show ?thesis
  proof cases
    case lt
    with same show ?thesis by simp
  next
    case eq
    with same show ?thesis by (cases "absorbs r (pos = length ts) x") simp_all
  next
    case sign
    with same show ?thesis by simp
  next
    case other
    from overrun_needs_sign [OF op other(2) a start other(1)] show ?thesis by simp
  qed
qed

text \<open>A run that fails on \<open>ts\<close> fails on \<open>ts\<close> followed by an operator.\<close>

lemma error_persists:
  assumes op: "isOperator x"
  shows "parse F ts r pos = Some (Inl e) \<Longrightarrow> pos \<le> length ts \<Longrightarrow>
         \<exists>e'. parse (Suc (Suc (Suc F))) (ts @ [x]) r pos = Some (Inl e')"
proof (induction F arbitrary: r pos e)
  case 0
  then show ?case by (simp add: parse.simps)
next
  case (Suc F)
  note IH = Suc.IH and res = Suc.prems(1) and start = Suc.prems(2)
  note ops = operator_token [OF op]
  note same = append_operator [OF op]
  note after = after_operator [OF op]
  note other = peek_append_other [of x _ ts]
  note there = other [OF ops(1)] other [OF ops(2)] other [OF ops(3)] other [OF ops(4)]
  have chain: "\<exists>e'. parse (Suc (Suc (Suc (Suc F)))) (ts @ [x]) r pos = Some (Inl e')"
    if R: "parse (Suc F) ts r pos =
             andThen (parse F ts r1 q) (\<lambda>(l, k). parse F ts (lp l) k)"
      and q: "q \<le> length ts"
      and T: "parse (Suc (Suc (Suc (Suc F)))) (ts @ [x]) r pos =
                andThen (parse (Suc (Suc (Suc F))) (ts @ [x]) r1 q)
                  (\<lambda>(l, k). parse (Suc (Suc (Suc F))) (ts @ [x]) (lp l) k)"
      and lpb: "\<And>l f k. length ts \<le> k \<Longrightarrow>
                  \<exists>m. parse (Suc f) ts (lp l) k = Some (Inr (m, k))"
    for r1 q lp
  proof -
    from res R consider (first) e1 where "parse F ts r1 q = Some (Inl e1)"
      | (second) n p1 where "parse F ts r1 q = Some (Inr (n, p1))"
          "parse F ts (lp n) p1 = Some (Inl e)"
      by (auto simp: andThen_def split: option.splits sum.splits)
    then show ?thesis
    proof cases
      case first
      from IH [OF first q] show ?thesis unfolding T by (auto simp: andThen_def)
    next
      case second
      from second(2) obtain f where F: "F = Suc f" by (cases F) (simp_all add: parse.simps)
      have p1: "p1 < length ts"
      proof (rule ccontr)
        assume "\<not> p1 < length ts"
        then have "length ts \<le> p1" by simp
        from lpb [OF this, of f n] second(2) show False unfolding F by auto
      qed
      from same [OF second(1) q] p1
      have a': "parse (Suc (Suc (Suc F))) (ts @ [x]) r1 q = Some (Inr (n, p1))" by simp
      from p1 have "p1 \<le> length ts" by simp
      from IH [OF second(2) this] show ?thesis unfolding T a' by (simp add: andThen_def)
    qed
  qed
  show ?case
  proof (cases r)
    case Power
    have R: "parse (Suc F) ts r pos =
               andThen (parse F ts Primary pos) (\<lambda>(l, k). parse F ts (PowerLoop l) k)"
      unfolding Power by (subst parse.simps(4)) simp
    have T: "parse (Suc (Suc (Suc (Suc F)))) (ts @ [x]) r pos =
               andThen (parse (Suc (Suc (Suc F))) (ts @ [x]) Primary pos)
                 (\<lambda>(l, k). parse (Suc (Suc (Suc F))) (ts @ [x]) (PowerLoop l) k)"
      unfolding Power by (subst parse.simps(4)) simp
    show ?thesis
      by (rule chain [OF R start T]) (simp_all add: loop_beyond)
  next
    case MulDiv
    have R: "parse (Suc F) ts r pos =
               andThen (parse F ts Power pos) (\<lambda>(l, k). parse F ts (MulDivLoop l) k)"
      unfolding MulDiv by (subst parse.simps(6)) simp
    have T: "parse (Suc (Suc (Suc (Suc F)))) (ts @ [x]) r pos =
               andThen (parse (Suc (Suc (Suc F))) (ts @ [x]) Power pos)
                 (\<lambda>(l, k). parse (Suc (Suc (Suc F))) (ts @ [x]) (MulDivLoop l) k)"
      unfolding MulDiv by (subst parse.simps(6)) simp
    show ?thesis
      by (rule chain [OF R start T]) (simp_all add: loop_beyond)
  next
    case AddSub
    have R: "parse (Suc F) ts r pos =
               andThen (parse F ts MulDiv pos) (\<lambda>(l, k). parse F ts (AddSubLoop l) k)"
      unfolding AddSub by (subst parse.simps(8)) simp
    have T: "parse (Suc (Suc (Suc (Suc F)))) (ts @ [x]) r pos =
               andThen (parse (Suc (Suc (Suc F))) (ts @ [x]) MulDiv pos)
                 (\<lambda>(l, k). parse (Suc (Suc (Suc F))) (ts @ [x]) (AddSubLoop l) k)"
      unfolding AddSub by (subst parse.simps(8)) simp
    show ?thesis
      by (rule chain [OF R start T]) (simp_all add: loop_beyond)
  next
    case (PowerLoop m)
    show ?thesis
    proof (cases "pos < length ts \<and> (peek ts pos = Some ''**'' \<or> peek ts pos = Some ''^'')")
      case False
      with res start show ?thesis
        unfolding PowerLoop by (auto simp: parse.simps(5) peek_def)
    next
      case True
      then have less: "pos < length ts"
        and go: "peek ts pos = Some ''**'' \<or> peek ts pos = Some ''^''" by simp_all
      from less have next_pos: "Suc pos \<le> length ts" by simp
      have R: "parse (Suc F) ts r pos =
                 andThen (parse F ts Power (Suc pos))
                   (\<lambda>(l, k). parse F ts (PowerLoop (OpNode ''**'' [m, l])) k)"
        unfolding PowerLoop using go by (subst parse.simps(5)) simp
      have T: "parse (Suc (Suc (Suc (Suc F)))) (ts @ [x]) r pos =
                 andThen (parse (Suc (Suc (Suc F))) (ts @ [x]) Power (Suc pos))
                   (\<lambda>(l, k). parse (Suc (Suc (Suc F))) (ts @ [x]) (PowerLoop (OpNode ''**'' [m, l])) k)"
        unfolding PowerLoop using go less
        by (subst parse.simps(5)) (simp add: peek_append_less)
      show ?thesis
        by (rule chain [OF R next_pos T]) (simp_all add: loop_beyond)
    qed
  next
    case (MulDivLoop m)
    show ?thesis
    proof (cases "pos < length ts \<and> (peek ts pos = Some ''*'' \<or> peek ts pos = Some ''/'')")
      case False
      with res start show ?thesis
        unfolding MulDivLoop by (auto simp: parse.simps(7) peek_def)
    next
      case True
      then have less: "pos < length ts"
        and go: "peek ts pos = Some ''*'' \<or> peek ts pos = Some ''/''" by simp_all
      from less have next_pos: "Suc pos \<le> length ts" by simp
      have R: "parse (Suc F) ts r pos =
                 andThen (parse F ts Power (Suc pos))
                   (\<lambda>(l, k). parse F ts (MulDivLoop (OpNode (tokText (peek ts pos)) [m, l])) k)"
        unfolding MulDivLoop using go by (subst parse.simps(7)) simp
      have T: "parse (Suc (Suc (Suc (Suc F)))) (ts @ [x]) r pos =
                 andThen (parse (Suc (Suc (Suc F))) (ts @ [x]) Power (Suc pos))
                   (\<lambda>(l, k). parse (Suc (Suc (Suc F))) (ts @ [x]) (MulDivLoop (OpNode (tokText (peek ts pos)) [m, l])) k)"
        unfolding MulDivLoop using go less
        by (subst parse.simps(7)) (simp add: peek_append_less)
      show ?thesis
        by (rule chain [OF R next_pos T]) (simp_all add: loop_beyond)
    qed
  next
    case (AddSubLoop m)
    show ?thesis
    proof (cases "pos < length ts \<and> (peek ts pos = Some ''+'' \<or> peek ts pos = Some ''-'')")
      case False
      with res start show ?thesis
        unfolding AddSubLoop by (auto simp: parse.simps(9) peek_def)
    next
      case True
      then have less: "pos < length ts"
        and go: "peek ts pos = Some ''+'' \<or> peek ts pos = Some ''-''" by simp_all
      from less have next_pos: "Suc pos \<le> length ts" by simp
      have R: "parse (Suc F) ts r pos =
                 andThen (parse F ts MulDiv (Suc pos))
                   (\<lambda>(l, k). parse F ts (AddSubLoop (OpNode (tokText (peek ts pos)) [m, l])) k)"
        unfolding AddSubLoop using go by (subst parse.simps(9)) simp
      have T: "parse (Suc (Suc (Suc (Suc F)))) (ts @ [x]) r pos =
                 andThen (parse (Suc (Suc (Suc F))) (ts @ [x]) MulDiv (Suc pos))
                   (\<lambda>(l, k). parse (Suc (Suc (Suc F))) (ts @ [x]) (AddSubLoop (OpNode (tokText (peek ts pos)) [m, l])) k)"
        unfolding AddSubLoop using go less
        by (subst parse.simps(9)) (simp add: peek_append_less)
      show ?thesis
        by (rule chain [OF R next_pos T]) (simp_all add: loop_beyond)
    qed
  next
    case Primary
    show ?thesis
    proof (cases "pos = length ts")
      case True
      with res show ?thesis
        unfolding Primary by (simp add: parse.simps(2) peek_end undefined_is_identifier)
    next
      case False
      with start have less: "pos < length ts" by simp
      then have here: "peek (ts @ [x]) pos = peek ts pos" by (rule peek_append_less)
      from less have next_pos: "Suc pos \<le> length ts" by simp
      note other = peek_append_other [of x _ ts]
      note there = other [OF ops(1)] other [OF ops(2)] other [OF ops(3)] other [OF ops(4)]
      let ?t = "peek ts pos"
      consider (paren) "?t = Some ''(''"
        | (call) "?t \<noteq> Some ''(''" "\<not> isNumberToken ?t" "?t \<noteq> Some ''i''" "isIdentToken ?t"
            "peek ts (Suc pos) = Some ''(''" "peek ts (Suc (Suc pos)) \<noteq> Some '')''"
        | (sign) "?t \<noteq> Some ''(''" "\<not> isNumberToken ?t" "?t \<noteq> Some ''i''" "\<not> isIdentToken ?t"
            "?t = Some ''+'' \<or> ?t = Some ''-''"
        | (token) "?t \<noteq> Some ''(''"
            "\<not> isNumberToken ?t \<and> ?t \<noteq> Some ''i'' \<and> isIdentToken ?t \<longrightarrow>
               \<not> (peek ts (Suc pos) = Some ''('' \<and> peek ts (Suc (Suc pos)) \<noteq> Some '')'')"
            "\<not> isNumberToken ?t \<and> ?t \<noteq> Some ''i'' \<and> \<not> isIdentToken ?t \<longrightarrow>
               \<not> (?t = Some ''+'' \<or> ?t = Some ''-'')"
        by blast
      then show ?thesis
      proof cases
        case paren
        have R: "parse (Suc F) ts Primary pos =
                   andThen (parse F ts AddSub (Suc pos)) (\<lambda>(node, p).
                     if peek ts p \<noteq> Some '')'' then Some (Inl UnclosedParenthesis)
                     else Some (Inr (node, Suc p)))"
          using paren by (subst parse.simps(2)) simp
        have T: "parse (Suc (Suc (Suc (Suc F)))) (ts @ [x]) Primary pos =
                   andThen (parse (Suc (Suc (Suc F))) (ts @ [x]) AddSub (Suc pos)) (\<lambda>(node, p).
                     if peek (ts @ [x]) p \<noteq> Some '')'' then Some (Inl UnclosedParenthesis)
                     else Some (Inr (node, Suc p)))"
          using paren by (subst parse.simps(2)) (simp add: here)
        from res R consider (failed) e1 where "parse F ts AddSub (Suc pos) = Some (Inl e1)"
          | (unclosed) n p1 where "parse F ts AddSub (Suc pos) = Some (Inr (n, p1))"
              "peek ts p1 \<noteq> Some '')''"
          unfolding Primary
          by (auto simp: andThen_def split: option.splits sum.splits if_splits)
        then show ?thesis
        proof cases
          case failed
          from IH [OF failed next_pos] show ?thesis
            unfolding Primary T by (auto simp: andThen_def)
        next
          case unclosed
          from after [OF unclosed(1) next_pos] unclosed(2) show ?thesis
            unfolding Primary T
            by (auto simp: andThen_def there peek_end split: option.splits sum.splits)
        qed
      next
        case call
        with res have
          b: "parse F ts (CallArgs (tokText ?t) []) (Suc (Suc pos)) = Some (Inl e)"
          unfolding Primary by (simp add: parse.simps(2))
        from call have "Suc (Suc pos) \<le> length ts" by (simp add: peek_def split: if_splits)
        note sub = IH [OF b this]
        have "parse (Suc (Suc (Suc (Suc F)))) (ts @ [x]) Primary pos =
                parse (Suc (Suc (Suc F))) (ts @ [x]) (CallArgs (tokText ?t) []) (Suc (Suc pos))"
          using call by (subst parse.simps(2)) (simp add: here there)
        with sub show ?thesis unfolding Primary by simp
      next
        case sign
        with res have a: "parse F ts Primary (Suc pos) = Some (Inl e)"
          unfolding Primary
          by (auto simp: parse.simps(2) andThen_def Let_def
                   split: option.splits sum.splits if_splits)
        note sub = IH [OF a next_pos]
        have T: "parse (Suc (Suc (Suc (Suc F)))) (ts @ [x]) Primary pos =
                   andThen (parse (Suc (Suc (Suc F))) (ts @ [x]) Primary (Suc pos)) (\<lambda>(prim, p).
                     if ?t = Some ''-'' then Some (Inr (OpNode ''neg'' [prim], p))
                     else Some (Inr (prim, p)))"
          using sign by (subst parse.simps(2)) (simp add: here there)
        from sub show ?thesis unfolding Primary T by (auto simp: andThen_def)
      next
        case token
        have "parse (Suc (Suc (Suc (Suc F)))) (ts @ [x]) Primary pos = parse (Suc F) ts Primary pos"
          using token by (subst (1 2) parse.simps(2)) (auto simp: here there Let_def)
        with res show ?thesis unfolding Primary by simp
      qed
    qed
  next
    case (CallArgs name args)
    have R: "parse (Suc F) ts r pos =
               andThen (parse F ts AddSub pos) (\<lambda>(a, p).
                 if peek ts p = Some '','' then parse F ts (CallArgs name (args @ [a])) (Suc p)
                 else if peek ts p \<noteq> Some '')'' then Some (Inl UnclosedCallParenthesis)
                 else Some (Inr (CallNode name (args @ [a]), Suc p)))"
      unfolding CallArgs by (subst parse.simps(3)) simp
    have T: "parse (Suc (Suc (Suc (Suc F)))) (ts @ [x]) r pos =
               andThen (parse (Suc (Suc (Suc F))) (ts @ [x]) AddSub pos) (\<lambda>(a, p).
                 if peek (ts @ [x]) p = Some '','' then parse (Suc (Suc (Suc F))) (ts @ [x]) (CallArgs name (args @ [a])) (Suc p)
                 else if peek (ts @ [x]) p \<noteq> Some '')'' then Some (Inl UnclosedCallParenthesis)
                 else Some (Inr (CallNode name (args @ [a]), Suc p)))"
      unfolding CallArgs by (subst parse.simps(3)) simp
    from res R consider (failed) e1 where "parse F ts AddSub pos = Some (Inl e1)"
      | (more) a p1 where "parse F ts AddSub pos = Some (Inr (a, p1))"
          "peek ts p1 = Some '',''"
          "parse F ts (CallArgs name (args @ [a])) (Suc p1) = Some (Inl e)"
      | (unclosed) a p1 where "parse F ts AddSub pos = Some (Inr (a, p1))"
          "peek ts p1 \<noteq> Some '',''" "peek ts p1 \<noteq> Some '')''"
      by (auto simp: andThen_def split: option.splits sum.splits if_splits)
    then show ?thesis
    proof cases
      case failed
      from IH [OF failed start] show ?thesis unfolding T by (auto simp: andThen_def)
    next
      case more
      from more(2) have p1: "p1 < length ts" by (simp add: peek_def split: if_splits)
      from same [OF more(1) start] p1
      have a': "parse (Suc (Suc (Suc F))) (ts @ [x]) AddSub pos = Some (Inr (a, p1))" by simp
      from p1 have "Suc p1 \<le> length ts" by simp
      from IH [OF more(3) this] more(2) p1 show ?thesis
        unfolding T a' by (simp add: andThen_def peek_append_less)
    next
      case unclosed
      from after [OF unclosed(1) start] unclosed(2,3) show ?thesis
        unfolding T
        by (auto simp: andThen_def there peek_end split: option.splits sum.splits)
    qed
  qed
qed


text \<open>
  So \<^verbatim>\<open>parseExpression\<close> accepts tokens followed by an operator only in the two cases of
  \<open>operator_after\<close>.
\<close>

lemma operator_after_exact:
  assumes op: "isOperator x" and ok: "parseExpression (ts @ [x]) = Some (Inr node')"
  shows "\<exists>node p. parseAddSub (4 * length ts + 4) ts 0 = Some (Inr (node, p)) \<and>
                  (p = length ts \<or> length ts < p \<and> isAddOp x)"
proof -
  let ?F = "4 * length ts + 4"
  have fuel: "4 * length (ts @ [x]) + 4 = Suc (Suc (Suc (Suc ?F)))" by simp
  have lift: "parse (Suc (Suc (Suc (Suc ?F)))) (ts @ [x]) AddSub 0 = Some y"
    if "parse (Suc (Suc (Suc ?F))) (ts @ [x]) AddSub 0 = Some y" for y
    using that parse_more_fuel [of "Suc (Suc (Suc ?F))" "ts @ [x]" AddSub 0]
    by (simp add: extends_def)
  have failing: False if "parse (Suc (Suc (Suc ?F))) (ts @ [x]) AddSub 0 = Some (Inl e)" for e
    using ok lift [OF that]
    unfolding parseExpression_def parseWith_def parseAddSub_def fuel
    by (simp add: andThen_def)
  have "returns AddSub 0 (parse ?F ts AddSub 0)" by (rule parse_returns) simp
  then obtain res where r: "parse ?F ts AddSub 0 = Some res"
    by (auto simp: returns_def split: option.splits)
  show ?thesis
  proof (cases res)
    case (Inl e)
    with r error_persists [OF op, of ?F ts AddSub 0 e] failing show ?thesis by auto
  next
    case (Inr np)
    obtain node p where np: "np = (node, p)" by (cases np)
    from r Inr np have a: "parse ?F ts AddSub 0 = Some (Inr (node, p))" by simp
    consider (lt) "p < length ts" | (other) "length ts < p" "\<not> isAddOp x"
      | (good) "p = length ts \<or> length ts < p \<and> isAddOp x"
      by linarith
    then show ?thesis
    proof cases
      case lt
      with append_operator [OF op a]
      have "parse (Suc (Suc (Suc ?F))) (ts @ [x]) AddSub 0 = Some (Inr (node, p))" by simp
      from lift [OF this] lt ok show ?thesis
        unfolding parseExpression_def parseWith_def parseAddSub_def fuel
        by (simp add: andThen_def)
    next
      case other
      from overrun_needs_sign [OF op other(2) a _ other(1)] failing show ?thesis by auto
    next
      case good
      with a show ?thesis by (auto simp: parseAddSub_def)
    qed
  qed
qed

subsection \<open>The property\<close>

lemma parse_1: "parseAddSub 8 [''1''] 0 = Some (Inr (NumNode \<lparr>re = Num 1, im = Num 0\<rparr>, 1))"
  by code_simp

lemma parse_operator_last:
  "parseExpression [''1'', ''*''] =
     Some (Inr (OpNode ''*'' [NumNode \<lparr>re = Num 1, im = Num 0\<rparr>, VarNode None])) \<and>
   parseExpression [''1'', ''/''] =
     Some (Inr (OpNode ''/'' [NumNode \<lparr>re = Num 1, im = Num 0\<rparr>, VarNode None])) \<and>
   parseExpression [''2'', ''^''] =
     Some (Inr (OpNode ''**'' [NumNode \<lparr>re = Num 2, im = Num 0\<rparr>, VarNode None])) \<and>
   parseExpression [''-''] = Some (Inr (OpNode ''neg'' [VarNode None]))"
  by code_simp

text \<open>
  C10. The claim: whenever the tokens are exhausted where a primary operand is expected,
  \<^verbatim>\<open>parseExpression\<close> does not fail with any parse error. Counterexample: the tokens of
  \<^verbatim>\<open>(1+\<close> are exhausted after the \<^verbatim>\<open>+\<close>; the operand read there is the variable node of
  \<^verbatim>\<open>undefined\<close>, and then the closing parenthesis is missing and \<^verbatim>\<open>parseExpression\<close> fails.
\<close>

theorem exhausted_in_parenthesis_fails:
  "tokenize ''(1+'' = Inr [''('', ''1'', ''+''] \<and>
   parseExpression [''('', ''1'', ''+''] = Some (Inl UnclosedParenthesis)"
  by code_simp

text \<open>
  C10, as amended. Where the tokens are exhausted, \<^verbatim>\<open>parsePrimary\<close> does not fail with
  \<open>InvalidPrimary\<close>: the token read is \<^verbatim>\<open>undefined\<close>, the identifier test accepts it, and
  the result is a variable node with that name, one position further. So does every
  tier above it when it starts there. \<^verbatim>\<open>parseExpression\<close> succeeds on no tokens at all.
  It succeeds on every sequence of tokens that ends in an operator where no parenthesis
  and no call is open: when the tokens before the operator are read to their end by the
  additive tier (which fails, or stops before, when a parenthesis or a call is open
  there) and the operator is any of \<^verbatim>\<open>+ - * / ^ **\<close>; and when the tokens before the
  operator are themselves accepted by \<^verbatim>\<open>parseExpression\<close>, also with an operand read past
  their end, and the operator is a sign \<^verbatim>\<open>+\<close> or \<^verbatim>\<open>-\<close>. In both cases the additive tier
  returns one position past the end of all the tokens: the last operand is the one read
  there. These are the only sequences ending in an operator that \<^verbatim>\<open>parseExpression\<close>
  accepts: it fails when it fails on the tokens before the operator, as it does when a
  parenthesis or a call is open there, when it does not read them to their end, and
  when they end where an operand is expected and the operator is no sign.
\<close>

theorem exhausted_primary_is_variable:
  "(length tokens \<le> pos \<longrightarrow>
      parsePrimary (Suc f) tokens pos = Some (Inr (VarNode None, Suc pos)) \<and>
      parsePower (Suc (Suc f)) tokens pos = Some (Inr (VarNode None, Suc pos)) \<and>
      parseMulDiv (Suc (Suc (Suc f))) tokens pos = Some (Inr (VarNode None, Suc pos)) \<and>
      parseAddSub (Suc (Suc (Suc (Suc f)))) tokens pos = Some (Inr (VarNode None, Suc pos))) \<and>
   parseExpression [] = Some (Inr (VarNode None)) \<and>
   (parseAddSub fuel tokens 0 = Some (Inr (node, length tokens)) \<and> isOperator x \<longrightarrow>
      (\<exists>node'. parseAddSub (4 * length (tokens @ [x]) + 4) (tokens @ [x]) 0 =
                  Some (Inr (node', Suc (length (tokens @ [x])))) \<and>
               parseExpression (tokens @ [x]) = Some (Inr node'))) \<and>
   (parseExpression tokens = Some (Inr node) \<and> isAddOp x \<longrightarrow>
      (\<exists>node'. parseAddSub (4 * length (tokens @ [x]) + 4) (tokens @ [x]) 0 =
                  Some (Inr (node', Suc (length (tokens @ [x])))) \<and>
               parseExpression (tokens @ [x]) = Some (Inr node'))) \<and>
   (isOperator x \<and> parseExpression (tokens @ [x]) = Some (Inr result) \<longrightarrow>
      (\<exists>n q. parseAddSub (4 * length tokens + 4) tokens 0 = Some (Inr (n, q)) \<and>
             (q = length tokens \<or> length tokens < q \<and> isAddOp x)))"
proof (intro conjI impI)
  assume "length tokens \<le> pos"
  then show "parsePrimary (Suc f) tokens pos = Some (Inr (VarNode None, Suc pos))"
    and "parsePower (Suc (Suc f)) tokens pos = Some (Inr (VarNode None, Suc pos))"
    and "parseMulDiv (Suc (Suc (Suc f))) tokens pos = Some (Inr (VarNode None, Suc pos))"
    and "parseAddSub (Suc (Suc (Suc (Suc f)))) tokens pos = Some (Inr (VarNode None, Suc pos))"
    by (simp_all add: parsePrimary_def parsePower_def parseMulDiv_def parseAddSub_def
        entry_exhausted)
next
  show "parseExpression [] = Some (Inr (VarNode None))" by (rule parse_empty)
next
  assume "parseAddSub fuel tokens 0 = Some (Inr (node, length tokens)) \<and> isOperator x"
  then show "\<exists>node'. parseAddSub (4 * length (tokens @ [x]) + 4) (tokens @ [x]) 0 =
                  Some (Inr (node', Suc (length (tokens @ [x])))) \<and>
               parseExpression (tokens @ [x]) = Some (Inr node')"
    using operator_after [of fuel tokens node "length tokens" x]
    by (simp add: parseAddSub_def)
next
  assume a: "parseExpression tokens = Some (Inr node) \<and> isAddOp x"
  then obtain p where
    p: "parse (4 * length tokens + 4) tokens AddSub 0 = Some (Inr (node, p))" "length tokens \<le> p"
    by (auto simp: parseExpression_def parseWith_def parseAddSub_def andThen_def
             split: option.splits sum.splits if_splits)
  from a have "p = length tokens \<and> isOperator x \<or> length tokens < p \<and> isAddOp x"
    using p(2) by (auto simp: isOperator_def)
  from operator_after [OF p(1) this]
  show "\<exists>node'. parseAddSub (4 * length (tokens @ [x]) + 4) (tokens @ [x]) 0 =
                  Some (Inr (node', Suc (length (tokens @ [x])))) \<and>
               parseExpression (tokens @ [x]) = Some (Inr node')" .
next
  assume "isOperator x \<and> parseExpression (tokens @ [x]) = Some (Inr result)"
  then show "\<exists>n q. parseAddSub (4 * length tokens + 4) tokens 0 = Some (Inr (n, q)) \<and>
                (q = length tokens \<or> length tokens < q \<and> isAddOp x)"
    using operator_after_exact [of x tokens result] by simp
qed

theorem exhausted_primary_is_variable_witness:
  "length [''1''] \<le> 1 \<and>
   parsePrimary (Suc 0) [''1''] 1 = Some (Inr (VarNode None, Suc 1)) \<and>
   parseAddSub 8 [''1''] 0 = Some (Inr (NumNode \<lparr>re = Num 1, im = Num 0\<rparr>, length [''1''])) \<and>
   isOperator ''*'' \<and>
   (\<exists>node'. parseExpression ([''1''] @ [''*'']) = Some (Inr node')) \<and>
   parseExpression [] = Some (Inr (VarNode None)) \<and>
   isAddOp ''-'' \<and>
   (\<exists>node'. parseExpression ([] @ [''-'']) = Some (Inr node')) \<and>
   parseExpression ([''1''] @ [''*'']) =
     Some (Inr (OpNode ''*'' [NumNode \<lparr>re = Num 1, im = Num 0\<rparr>, VarNode None])) \<and>
   (\<exists>n q. parseAddSub (4 * length [''1''] + 4) [''1''] 0 = Some (Inr (n, q)) \<and>
          (q = length [''1''] \<or> length [''1''] < q \<and> isAddOp ''*''))"
  using exhausted_primary_is_variable
          [where tokens = "[''1'']" and pos = 1 and f = 0 and fuel = 8
             and node = "NumNode \<lparr>re = Num 1, im = Num 0\<rparr>" and x = "''*''"
             and result = "OpNode ''*'' [NumNode \<lparr>re = Num 1, im = Num 0\<rparr>, VarNode None]"]
        exhausted_primary_is_variable
          [where tokens = "[]" and pos = 0 and f = 0 and fuel = 0
             and node = "VarNode None" and x = "''-''" and result = "VarNode None"]
  by (auto simp: parse_1 parse_empty parse_operator_last isOperator_def isMulOp_def isAddOp_def)

end
